theory Spec2Isabelle
  imports Main
begin

section \<open>Strings as JavaScript sees them\<close>

text \<open>
  A JavaScript string is a sequence of UTF-16 code units; the model takes a code unit as
  an integer (from 0 to 65535 in a string of the program) and a string as a list of them.
  \<open>js\<close> gives the string of an ASCII literal, each of whose characters is one code
  unit.
\<close>

type_synonym jstring = "int list"

definition js :: "string \<Rightarrow> jstring" where
  "js s = map of_char s"

abbreviation hyphen :: int where "hyphen \<equiv> 45"

abbreviation space_unit :: int where "space_unit \<equiv> 32"

abbreviation backslash :: int where "backslash \<equiv> 92"

abbreviation letter_a :: int where "letter_a \<equiv> 97"

abbreviation letter_n :: int where "letter_n \<equiv> 110"

abbreviation letter_s :: int where "letter_s \<equiv> 115"

text \<open>
  The white space of \<^verbatim>\<open>String.prototype.trim\<close> and of the class \<^verbatim>\<open>\s\<close>: the code
  units of ECMAScript's WhiteSpace and LineTerminator, that is TAB, LF, VT, FF, CR, SPACE,
  U+00A0, U+1680, U+2000 to U+200A, U+2028, U+2029, U+202F, U+205F, U+3000 and U+FEFF.
\<close>

definition is_ws :: "int \<Rightarrow> bool" where
  "is_ws c =
     (c \<in> set [9, 10, 11, 12, 13, 32, 160, 5760,
                8192, 8193, 8194, 8195, 8196, 8197, 8198, 8199, 8200, 8201, 8202,
                8232, 8233, 8239, 8287, 12288, 65279])"

text \<open>The class \<^verbatim>\<open>\w\<close>, that is \<^verbatim>\<open>[A-Za-z0-9_]\<close>, and the letters \<^verbatim>\<open>A-Z\<close>.\<close>

definition is_word :: "int \<Rightarrow> bool" where
  "is_word c =
     (48 \<le> c \<and> c \<le> 57 \<or> 65 \<le> c \<and> c \<le> 90 \<or> c = 95 \<or> 97 \<le> c \<and> c \<le> 122)"

definition is_upper :: "int \<Rightarrow> bool" where
  "is_upper c = (65 \<le> c \<and> c \<le> 90)"

text \<open>
  \<^verbatim>\<open>s.toLowerCase()\<close>. \<open>lower_unit\<close> is exact on the ASCII code units and on the two
  others whose lower case has an ASCII letter: U+0130 becomes \<^verbatim>\<open>i\<close> followed by U+0307,
  and U+212A becomes \<^verbatim>\<open>k\<close>. Every other code unit outside ASCII is left as it is,
  where JavaScript may put another code unit outside ASCII that is not white space (white
  space has no lower case). The program cannot tell the difference: it lowers a tag name
  only to compare it with ASCII names, after the selector has matched it to one of them,
  and it lowers a title only to delete, as the next step, every code unit outside ASCII
  that is not white space.
\<close>

definition lower_unit :: "int \<Rightarrow> jstring" where
  "lower_unit c =
     (if 65 \<le> c \<and> c \<le> 90 then [c + 32]
      else if c = 304 then [105, 775]
      else if c = 8490 then [107]
      else [c])"

definition toLowerCase :: "jstring \<Rightarrow> jstring" where
  "toLowerCase s = concat (map lower_unit s)"

text \<open>\<^verbatim>\<open>s.trim()\<close>: white space is removed at both ends.\<close>

definition trim :: "jstring \<Rightarrow> jstring" where
  "trim s = rev (dropWhile is_ws (rev (dropWhile is_ws s)))"

text \<open>\<^verbatim>\<open>s.startsWith(p)\<close> and \<^verbatim>\<open>s.charAt(i)\<close> (the empty string out of range).\<close>

definition startsWith :: "jstring \<Rightarrow> jstring \<Rightarrow> bool" where
  "startsWith s p = (take (length p) s = p)"

definition charAt :: "jstring \<Rightarrow> nat \<Rightarrow> jstring" where
  "charAt s i = (if i < length s then [s ! i] else [])"

text \<open>
  \<^verbatim>\<open>`${parseInt(d)}`\<close> for a string \<open>d\<close> of at most one code unit, as
  \<^verbatim>\<open>extractSections\<close> uses it: the digit itself, and \<^verbatim>\<open>NaN\<close> for anything else.
\<close>

definition parseInt_shown :: "jstring \<Rightarrow> jstring" where
  "parseInt_shown d =
     (if d \<noteq> [] \<and> 48 \<le> hd d \<and> hd d \<le> 57 then [hd d] else js ''NaN'')"

section \<open>The parsed document\<close>

text \<open>
  The tree cheerio hands to the scraper: text nodes and elements with a tag name and
  children. \<open>text_of\<close> is \<^verbatim>\<open>$(el).text()\<close>, \<open>descendants\<close> lists the nodes below a
  node in document order and \<open>find_tags\<close> is \<^verbatim>\<open>$(el).find("t1, t2, ...")\<close> for a
  selector that is a list of tag names.
\<close>

datatype node = Text jstring | Element jstring "node list"

fun text_of :: "node \<Rightarrow> jstring" where
  "text_of (Text s) = s"
| "text_of (Element t cs) = concat (map text_of cs)"

fun descendants :: "node \<Rightarrow> node list" where
  "descendants (Text s) = []"
| "descendants (Element t cs) = concat (map (\<lambda>c. c # descendants c) cs)"

fun has_tag :: "jstring list \<Rightarrow> node \<Rightarrow> bool" where
  "has_tag sel (Text s) = False"
| "has_tag sel (Element t cs) = (t \<in> set sel)"

fun tagName :: "node \<Rightarrow> jstring" where
  "tagName (Text s) = []"
| "tagName (Element t cs) = t"

definition find_tags :: "jstring list \<Rightarrow> node \<Rightarrow> node list" where
  "find_tags sel n = filter (has_tag sel) (descendants n)"

definition content_selector :: "jstring list" where
  "content_selector = [js ''p'', js ''h1'', js ''h2'', js ''h3'', js ''h4'', js ''h5'', js ''h6'', js ''ul'', js ''ol'']"

section \<open>Sections and their extraction\<close>

datatype ScrapedContent = Paragraph jstring | ListItems "jstring list"

record ContentSection =
  stype :: jstring
  heading :: "jstring option"
  content :: "ScrapedContent list"

definition intro_section :: ContentSection where
  "intro_section = \<lparr>stype = js ''intro'', heading = None, content = []\<rparr>"

text \<open>The trimmed, non-empty texts of the \<^verbatim>\<open>li\<close> elements below a list node.\<close>

definition list_items :: "node \<Rightarrow> jstring list" where
  "list_items el = filter (\<lambda>t. t \<noteq> []) (map (\<lambda>li. trim (text_of li)) (find_tags [js ''li''] el))"

text \<open>
  The state of the traversal is the pair of the sections pushed so far and the current
  section. \<open>extractSections_step\<close> is the body of the \<^verbatim>\<open>each\<close> callback of
  \<^verbatim>\<open>BlogScraper.extractSections\<close> (the command-line scraper).
\<close>

definition extractSections_step ::
  "ContentSection list \<times> ContentSection \<Rightarrow> node \<Rightarrow> ContentSection list \<times> ContentSection" where
  "extractSections_step st el =
     (let sections = fst st; currentSection = snd st; txt = trim (text_of el) in
      if txt = [] then st
      else
        let tag = toLowerCase (tagName el) in
        if startsWith tag (js ''h'') then
          (if content currentSection \<noteq> [] then sections @ [currentSection] else sections,
           \<lparr>stype = js ''section_h'' @ parseInt_shown (charAt tag 1),
            heading = Some txt, content = []\<rparr>)
        else if tag = js ''ul'' \<or> tag = js ''ol'' then
          (let listItems = list_items el in
           if listItems \<noteq> [] then
             (sections, currentSection\<lparr>content := content currentSection @ [ListItems listItems]\<rparr>)
           else st)
        else (sections, currentSection\<lparr>content := content currentSection @ [Paragraph txt]\<rparr>))"

definition finish_sections :: "ContentSection list \<times> ContentSection \<Rightarrow> ContentSection list" where
  "finish_sections st = (if content (snd st) \<noteq> [] then fst st @ [snd st] else fst st)"

definition extractSections :: "node \<Rightarrow> ContentSection list" where
  "extractSections blogContent =
     finish_sections
       (foldl extractSections_step ([], intro_section) (find_tags content_selector blogContent))"

text \<open>
  \<open>parseContent_step\<close> is the callback of \<^verbatim>\<open>BlogScraper.parseContent\<close> (the worker):
  the section type is built from the tag name, and a list item is pushed without looking
  at the number of items collected.
\<close>

definition parseContent_step ::
  "ContentSection list \<times> ContentSection \<Rightarrow> node \<Rightarrow> ContentSection list \<times> ContentSection" where
  "parseContent_step st el =
     (let contentSections = fst st; currentSection = snd st; elementText = trim (text_of el) in
      if elementText = [] then st
      else
        let tag = toLowerCase (tagName el) in
        if startsWith tag (js ''h'') then
          (if content currentSection \<noteq> [] then contentSections @ [currentSection]
           else contentSections,
           \<lparr>stype = js ''section_'' @ tag, heading = Some elementText, content = []\<rparr>)
        else if tag = js ''ul'' \<or> tag = js ''ol'' then
          (contentSections,
           currentSection\<lparr>content := content currentSection @ [ListItems (list_items el)]\<rparr>)
        else
          (contentSections,
           currentSection\<lparr>content := content currentSection @ [Paragraph elementText]\<rparr>))"

definition parseContent :: "node \<Rightarrow> ContentSection list" where
  "parseContent blogContent =
     finish_sections
       (foldl parseContent_step ([], intro_section) (find_tags content_selector blogContent))"

text \<open>The content root of the scenario of the specification.\<close>

definition scenario_root :: node where
  "scenario_root =
     Element (js ''section'')
       [Element (js ''h2'') [Text (js ''Intro Heading'')],
        Element (js ''p'') [Text (js ''Hello world'')],
        Element (js ''h2'') [Text (js ''Next'')],
        Element (js ''ul'') [Element (js ''li'') [Text (js ''A'')], Element (js ''li'') [], Element (js ''li'') [Text (js ''B'')]]]"

section \<open>Joining, splitting and replacing\<close>

text \<open>\<^verbatim>\<open>lines.join(sep)\<close>.\<close>

fun js_join :: "jstring \<Rightarrow> jstring list \<Rightarrow> jstring" where
  "js_join sep [] = []"
| "js_join sep [x] = x"
| "js_join sep (x # y # ys) = x @ sep @ js_join sep (y # ys)"

text \<open>\<^verbatim>\<open>s.split(d)\<close> for a separator \<open>d\<close> of one code unit; the empty string gives one piece.\<close>

fun split_char :: "int \<Rightarrow> jstring \<Rightarrow> jstring list" where
  "split_char d [] = [[]]"
| "split_char d (c # cs) =
     (if c = d then [] # split_char d cs
      else (case split_char d cs of p # ps \<Rightarrow> (c # p) # ps | [] \<Rightarrow> [[c]]))"

text \<open>
  \<^verbatim>\<open>s.replace(/X+/g, "-")\<close> where \<open>X\<close> is a class of code units \<open>P\<close>: every maximal run
  of code units of the class becomes one hyphen.
\<close>

function replace_runs :: "(int \<Rightarrow> bool) \<Rightarrow> jstring \<Rightarrow> jstring" where
  "replace_runs P [] = []"
| "replace_runs P (c # cs) =
     (if P c then hyphen # replace_runs P (dropWhile P cs) else c # replace_runs P cs)"
  by pat_completeness auto
termination
  by (relation "measure (\<lambda>(P, s). length s)") (auto simp: length_dropWhile_le less_Suc_eq_le)

text \<open>
  The command-line scraper and generator write their regular expressions with a doubled
  backslash: \<^verbatim>\<open>/\\s+/\<close> is a backslash followed by one or more letters \<^verbatim>\<open>s\<close>, and
  \<^verbatim>\<open>"\\n"\<close> is the two characters backslash and \<^verbatim>\<open>n\<close>. \<open>split_bs_s\<close> is
  \<^verbatim>\<open>s.split(/\\s+/)\<close> and \<open>replace_bs_s\<close> is \<^verbatim>\<open>s.replace(/\\s+/g, "-")\<close>.
\<close>

definition bs_n :: jstring where
  "bs_n = [backslash, letter_n]"

function split_bs_s :: "jstring \<Rightarrow> jstring list" where
  "split_bs_s [] = [[]]"
| "split_bs_s (c # cs) =
     (if c = backslash \<and> cs \<noteq> [] \<and> hd cs = letter_s
      then [] # split_bs_s (dropWhile (\<lambda>x. x = letter_s) cs)
      else (case split_bs_s cs of p # ps \<Rightarrow> (c # p) # ps | [] \<Rightarrow> [[c]]))"
  by pat_completeness auto
termination
  by (relation "measure length") (auto simp: length_dropWhile_le less_Suc_eq_le)

function replace_bs_s :: "jstring \<Rightarrow> jstring" where
  "replace_bs_s [] = []"
| "replace_bs_s (c # cs) =
     (if c = backslash \<and> cs \<noteq> [] \<and> hd cs = letter_s
      then hyphen # replace_bs_s (dropWhile (\<lambda>x. x = letter_s) cs)
      else c # replace_bs_s cs)"
  by pat_completeness auto
termination
  by (relation "measure length") (auto simp: length_dropWhile_le less_Suc_eq_le)

text \<open>
  The tokens of a string delimited by white space, as the specification counts words: the
  maximal runs of code units that are not white space.
\<close>

function ws_tokens :: "jstring \<Rightarrow> jstring list" where
  "ws_tokens [] = []"
| "ws_tokens (c # cs) =
     (if is_ws c then ws_tokens cs
      else (c # takeWhile (\<lambda>x. \<not> is_ws x) cs) # ws_tokens (dropWhile (\<lambda>x. \<not> is_ws x) cs))"
  by pat_completeness auto
termination
  by (relation "measure length") (auto simp: length_dropWhile_le less_Suc_eq_le)

section \<open>The prompt formatters\<close>

record ScrapedData =
  title :: jstring
  description :: "jstring option"
  category :: jstring
  sections :: "ContentSection list"
  url :: jstring

record ScrapedBlog = ScrapedData +
  sourceUrl :: jstring
  scrapedDate :: jstring
  wordCount :: nat
  sectionsCount :: nat

text \<open>The bullet of the list lines, the code unit U+2022.\<close>

definition bullet :: jstring where
  "bullet = [8226]"

fun intro_item_lines :: "ScrapedContent \<Rightarrow> jstring list" where
  "intro_item_lines (Paragraph t) = (if t \<noteq> [] then [js ''- '' @ t] else [])"
| "intro_item_lines (ListItems items) = []"

fun item_lines :: "ScrapedContent \<Rightarrow> jstring list" where
  "item_lines (Paragraph t) = (if t \<noteq> [] then [js ''- '' @ t] else [])"
| "item_lines (ListItems items) = js ''List items:'' # map (\<lambda>item. js ''  '' @ bullet @ js '' '' @ item) items"

text \<open>What one pass of the loop of \<^verbatim>\<open>prepareForAI\<close> pushes for a section.\<close>

definition section_lines :: "ContentSection \<Rightarrow> jstring list" where
  "section_lines s =
     (if stype s = js ''intro'' then js ''Introduction:'' # concat (map intro_item_lines (content s))
      else (case heading s of
              Some h \<Rightarrow> if h \<noteq> [] then [bs_n @ h] else []
            | None \<Rightarrow> [])
           @ concat (map item_lines (content s)))"

definition prompt_header :: "'a ScrapedData_scheme \<Rightarrow> jstring list" where
  "prompt_header d =
     filter (\<lambda>l. l \<noteq> [])
       [js ''Title: '' @ title d,
        (case description d of Some x \<Rightarrow> if x \<noteq> [] then js ''Description: '' @ x else [] | None \<Rightarrow> []),
        js ''Category: '' @ category d,
        []]"

definition prepareForAI_lines :: "'a ScrapedData_scheme \<Rightarrow> jstring list" where
  "prepareForAI_lines d = prompt_header d @ concat (map section_lines (sections d))"

definition prepareForAI :: "'a ScrapedData_scheme \<Rightarrow> jstring" where
  "prepareForAI d = js_join bs_n (prepareForAI_lines d)"

text \<open>The worker's types (\<^verbatim>\<open>BlogPost\<close>, \<^verbatim>\<open>ScrapedBlog\<close>, \<^verbatim>\<open>PostData\<close>) and its formatter.\<close>

record BlogPost =
  post_url :: jstring
  lastmod :: jstring

record WorkerBlog =
  w_title :: jstring
  w_description :: jstring
  w_category :: jstring
  w_sections :: "ContentSection list"
  w_url :: jstring
  w_filename :: "jstring option"
  w_lastmod :: "jstring option"

record PostData =
  filename :: jstring
  word_count :: nat
  sections_count :: nat

definition newline :: jstring where
  "newline = [10]"

definition openai_section_lines :: "ContentSection \<Rightarrow> jstring list" where
  "openai_section_lines s =
     (if stype s = js ''intro'' then js ''Introduction:'' # concat (map intro_item_lines (content s))
      else [])"

definition prepareForOpenAI_lines :: "WorkerBlog \<Rightarrow> jstring list" where
  "prepareForOpenAI_lines d =
     (js ''Title: '' @ w_title d @ newline @ js ''Description: '' @ w_description d @ newline
        @ js ''Category: '' @ w_category d @ newline @ newline)
     # concat (map openai_section_lines (w_sections d))"

definition prepareForOpenAI :: "WorkerBlog \<Rightarrow> jstring" where
  "prepareForOpenAI d = js_join newline (prepareForOpenAI_lines d)"

section \<open>Word counts\<close>

fun content_texts :: "ScrapedContent \<Rightarrow> jstring list" where
  "content_texts (Paragraph t) = [t]"
| "content_texts (ListItems items) = items"

definition all_texts :: "ContentSection list \<Rightarrow> jstring list" where
  "all_texts secs = concat (map (\<lambda>s. concat (map content_texts (content s))) secs)"

definition calculateWordCount :: "ContentSection list \<Rightarrow> nat" where
  "calculateWordCount secs = length (split_char space_unit (js_join (js '' '') (all_texts secs)))"

definition createPostData :: "WorkerBlog \<Rightarrow> jstring \<Rightarrow> PostData" where
  "createPostData scrapedBlog sourceUrl_arg =
     \<lparr>filename = (case w_filename scrapedBlog of
                    Some f \<Rightarrow> if f \<noteq> [] then f else js ''untitled.md''
                  | None \<Rightarrow> js ''untitled.md''),
      word_count =
        length (split_char space_unit (js_join (js '' '') (all_texts (w_sections scrapedBlog)))),
      sections_count = length (w_sections scrapedBlog)\<rparr>"

section \<open>File names\<close>

text \<open>\<^verbatim>\<open>s.replace(/^-|-$/g, '')\<close>: one hyphen less at the start, then one less at the end.\<close>

definition strip_edge_hyphens :: "jstring \<Rightarrow> jstring" where
  "strip_edge_hyphens s =
     (let s1 = (if s \<noteq> [] \<and> hd s = hyphen then tl s else s) in
      if s1 \<noteq> [] \<and> last s1 = hyphen then butlast s1 else s1)"

text \<open>\<^verbatim>\<open>BlogScraper.generateCleanFilename\<close> of the worker.\<close>

definition generateCleanFilename :: "jstring \<Rightarrow> jstring" where
  "generateCleanFilename t =
     take 100
       (strip_edge_hyphens
         (replace_runs (\<lambda>c. c = hyphen)
           (replace_runs is_ws
             (filter (\<lambda>c. is_word c \<or> is_ws c \<or> c = hyphen) (toLowerCase t)))))"

text \<open>
  \<^verbatim>\<open>BlogGenerator.cleanFilename\<close> of the command-line generator. Its first class,
  \<^verbatim>\<open>[^a-z0-9\\s-]\<close>, keeps lower-case letters, digits, the backslash and the hyphen.
\<close>

definition cleanFilename_keep :: "int \<Rightarrow> bool" where
  "cleanFilename_keep c =
     (97 \<le> c \<and> c \<le> 122 \<or> 48 \<le> c \<and> c \<le> 57 \<or> c = backslash \<or> c = hyphen)"

definition cleanFilename :: "jstring \<Rightarrow> jstring" where
  "cleanFilename t =
     take 100
       (replace_runs (\<lambda>c. c = hyphen)
         (replace_bs_s (trim (filter cleanFilename_keep (toLowerCase t)))))"

section \<open>The key-value store and the scrapers\<close>

datatype error = KVError | RangeError

text \<open>
  A Cloudflare KV namespace as the scraper reads it: \<^verbatim>\<open>get\<close> returns the stored value,
  \<^verbatim>\<open>null\<close> for a missing key, or throws.
\<close>

type_synonym CloudflareKV = "jstring \<Rightarrow> error + jstring option"

definition createUrlKey :: "jstring \<Rightarrow> jstring" where
  "createUrlKey u =
     take 512
       (map (\<lambda>c. if is_word c \<or> c = hyphen then c else 95) u)"

definition isUrlScraped :: "CloudflareKV option \<Rightarrow> jstring \<Rightarrow> bool" where
  "isUrlScraped kvNamespace u =
     (case kvNamespace of
        None \<Rightarrow> False
      | Some kv \<Rightarrow>
          (case kv (js ''scraped:'' @ createUrlKey u) of
             Inl e \<Rightarrow> False
           | Inr result \<Rightarrow> result \<noteq> None))"

text \<open>
  What the three selector queries of a scraper return on a loaded page: the text of the
  title node, the text of the excerpt node, and the content root if there is one.
\<close>

record Page =
  title_text :: jstring
  excerpt_text :: jstring
  gh_content :: "node option"

text \<open>
  \<^verbatim>\<open>scrapePepperCloudBlog\<close> of the command-line scraper. \<open>fetch\<close> gives the page of a URL,
  or nothing when the request fails; \<open>now\<close> is the time stamp of the scrape. Every
  failure ends in \<^verbatim>\<open>null\<close>. The final write of the URL marker to the store changes
  nothing in the value returned and is left out.
\<close>

definition scrapePepperCloudBlog ::
  "CloudflareKV option \<Rightarrow> (jstring \<Rightarrow> Page option) \<Rightarrow> jstring \<Rightarrow> jstring \<Rightarrow> jstring
     \<Rightarrow> ScrapedBlog option" where
  "scrapePepperCloudBlog kvNamespace fetch now blogUrl cat =
     (let fullUrl = js ''https://blog.peppercloud.com'' @ blogUrl in
      if isUrlScraped kvNamespace fullUrl then None
      else
        (case fetch fullUrl of
           None \<Rightarrow> None
         | Some page \<Rightarrow>
             (let ttl = trim (title_text page); descr = trim (excerpt_text page) in
              if ttl = [] then None
              else
                (case gh_content page of
                   None \<Rightarrow> None
                 | Some blogContent \<Rightarrow>
                     (let secs = extractSections blogContent;
                          aiReadyContent =
                            prepareForAI
                              \<lparr>title = ttl, description = Some descr, category = cat,
                               sections = secs, url = blogUrl\<rparr>
                      in Some
                          \<lparr>title = ttl, description = Some descr, category = cat,
                           sections = secs, url = blogUrl, sourceUrl = fullUrl,
                           scrapedDate = now,
                           wordCount = length (split_bs_s aiReadyContent),
                           sectionsCount = length secs\<rparr>)))))"

text \<open>\<^verbatim>\<open>scrapeBlog\<close> of the worker; the word count it computes is only logged.\<close>

definition scrapeBlog ::
  "(jstring \<Rightarrow> Page option) \<Rightarrow> jstring \<Rightarrow> jstring option \<Rightarrow> WorkerBlog option" where
  "scrapeBlog fetch blogUrl lastmod_arg =
     (case fetch blogUrl of
        None \<Rightarrow> None
      | Some page \<Rightarrow>
          (let ttl = trim (title_text page); descr = trim (excerpt_text page) in
           if ttl = [] then None
           else
             (case gh_content page of
                None \<Rightarrow> None
              | Some blogContent \<Rightarrow>
                  (let contentSections = parseContent blogContent;
                       cleanName = generateCleanFilename ttl
                   in Some
                       \<lparr>w_title = ttl, w_description = descr, w_category = js ''uncategorized'',
                        w_sections = contentSections, w_url = blogUrl,
                        w_filename = Some (cleanName @ js ''.mdx''),
                        w_lastmod = lastmod_arg\<rparr>))))"

section \<open>Listings and the recency cutoff\<close>

text \<open>
  The time value of a JavaScript \<^verbatim>\<open>Date\<close>: milliseconds, or nothing for an invalid
  date. A comparison with an invalid date is false. The parser of date strings,
  \<^verbatim>\<open>new Date(s)\<close>, is a parameter \<open>Date_parse\<close> of the functions that use it.
\<close>

type_synonym jsdate = "int option"

fun date_gt :: "jsdate \<Rightarrow> jsdate \<Rightarrow> bool" where
  "date_gt (Some a) (Some b) = (a > b)"
| "date_gt a b = False"

fun date_lt :: "jsdate \<Rightarrow> jsdate \<Rightarrow> bool" where
  "date_lt (Some a) (Some b) = (a < b)"
| "date_lt a b = False"

text \<open>
  \<^verbatim>\<open>getRecentPosts\<close> of the worker, on the posts the sitemap gave. Logging the cutoff
  with \<^verbatim>\<open>toISOString\<close> throws on an invalid date.
\<close>

definition getRecentPosts ::
  "(jstring \<Rightarrow> jsdate) \<Rightarrow> jsdate \<Rightarrow> BlogPost list \<Rightarrow> error + BlogPost list" where
  "getRecentPosts Date_parse cutoffDate allPosts =
     (let recentPosts = filter (\<lambda>post. date_gt (Date_parse (lastmod post)) cutoffDate) allPosts in
      if cutoffDate = None then Inl RangeError else Inr recentPosts)"

text \<open>
  An article card of a listing page, as \<^verbatim>\<open>getRecentBlogUrls\<close> reads it: the
  \<^verbatim>\<open>datetime\<close> attribute of its time element and the \<^verbatim>\<open>href\<close> of its link, each
  possibly missing.
\<close>

record ArticleCard =
  datetime :: "jstring option"
  href :: "jstring option"

definition truthy :: "jstring option \<Rightarrow> bool" where
  "truthy a = (case a of None \<Rightarrow> False | Some s \<Rightarrow> s \<noteq> [])"

text \<open>
  The loop of \<^verbatim>\<open>getRecentBlogUrls\<close> over the cards of the page; \<open>cutoffDate\<close> is
  the date the function computes from the clock. Returning \<^verbatim>\<open>false\<close> ends the loop.
\<close>

fun recentBlogUrls_loop :: "(jstring \<Rightarrow> jsdate) \<Rightarrow> jsdate \<Rightarrow> ArticleCard list \<Rightarrow> jstring list" where
  "recentBlogUrls_loop Date_parse cutoffDate [] = []"
| "recentBlogUrls_loop Date_parse cutoffDate (article # rest) =
     (if truthy (datetime article)
         \<and> date_lt (Date_parse (case datetime article of Some s \<Rightarrow> s | None \<Rightarrow> [])) cutoffDate
      then []
      else (if truthy (href article) then [case href article of Some s \<Rightarrow> s | None \<Rightarrow> []] else [])
           @ recentBlogUrls_loop Date_parse cutoffDate rest)"

text \<open>\<open>page\<close> is the listing page fetched, or nothing when the request fails.\<close>

definition getRecentBlogUrls ::
  "(jstring \<Rightarrow> jsdate) \<Rightarrow> jsdate \<Rightarrow> ArticleCard list option \<Rightarrow> jstring list" where
  "getRecentBlogUrls Date_parse cutoffDate page =
     (case page of None \<Rightarrow> [] | Some articles \<Rightarrow> recentBlogUrls_loop Date_parse cutoffDate articles)"

text \<open>
  The filter of the HTML listing as the specification words it: traversal stops at the
  first card dated at or before the cutoff.
\<close>

fun date_le :: "jsdate \<Rightarrow> jsdate \<Rightarrow> bool" where
  "date_le (Some a) (Some b) = (a \<le> b)"
| "date_le a b = False"

fun spec_listing_filter :: "(jstring \<Rightarrow> jsdate) \<Rightarrow> jsdate \<Rightarrow> ArticleCard list \<Rightarrow> jstring list" where
  "spec_listing_filter Date_parse cutoffDate [] = []"
| "spec_listing_filter Date_parse cutoffDate (article # rest) =
     (if truthy (datetime article)
         \<and> date_le (Date_parse (case datetime article of Some s \<Rightarrow> s | None \<Rightarrow> [])) cutoffDate
      then []
      else (if truthy (href article) then [case href article of Some s \<Rightarrow> s | None \<Rightarrow> []] else [])
           @ spec_listing_filter Date_parse cutoffDate rest)"

section \<open>The crawl loop\<close>

text \<open>
  What a run of \<^verbatim>\<open>BlogCrawlerWorker.run\<close> does to the outside: the posts handed to
  \<^verbatim>\<open>processPost\<close>, in order, and the dates handed to \<^verbatim>\<open>updateLastProcessedDate\<close>.
  \<^verbatim>\<open>processPost\<close> catches its own errors and touches neither the loop's variables nor
  the watermark.
\<close>

record run_outcome =
  attempted :: "BlogPost list"
  written :: "jsdate list"

text \<open>The \<^verbatim>\<open>for\<close> loop: the state is the latest date, the count and the posts attempted.\<close>

fun run_loop ::
  "(jstring \<Rightarrow> jsdate) \<Rightarrow> BlogPost list \<Rightarrow> jsdate \<times> nat \<times> BlogPost list
     \<Rightarrow> jsdate \<times> nat \<times> BlogPost list" where
  "run_loop Date_parse [] st = st"
| "run_loop Date_parse (post # rest) (latestDate, processedCount, done_posts) =
     (let done_posts' = done_posts @ [post];
          processedCount' = processedCount + 1;
          postDate = Date_parse (lastmod post);
          latestDate' = (if date_gt postDate latestDate then postDate else latestDate)
      in if processedCount' \<ge> 5 then (latestDate', processedCount', done_posts')
         else run_loop Date_parse rest (latestDate', processedCount', done_posts'))"

text \<open>
  \<open>lastProcessedDate\<close> is what \<^verbatim>\<open>getLastProcessedDate\<close> loaded and \<open>allPosts\<close> what the
  sitemap gave. An exception (logging an invalid date) is caught at the end of
  \<^verbatim>\<open>run\<close>: nothing is attempted or written then.
\<close>

definition run :: "(jstring \<Rightarrow> jsdate) \<Rightarrow> jsdate \<Rightarrow> BlogPost list \<Rightarrow> run_outcome" where
  "run Date_parse lastProcessedDate allPosts =
     (if lastProcessedDate = None then \<lparr>attempted = [], written = []\<rparr>
      else
        (case getRecentPosts Date_parse lastProcessedDate allPosts of
           Inl e \<Rightarrow> \<lparr>attempted = [], written = []\<rparr>
         | Inr recentPosts \<Rightarrow>
             if recentPosts = [] then \<lparr>attempted = [], written = []\<rparr>
             else
               (case run_loop Date_parse recentPosts (lastProcessedDate, 0, []) of
                  (latestDate, processedCount, done_posts) \<Rightarrow>
                    \<lparr>attempted = done_posts,
                     written = (if date_gt latestDate lastProcessedDate then [latestDate] else [])\<rparr>)))"

section \<open>Predicates and helpers of the statements\<close>

definition heading_tags :: "jstring list" where
  "heading_tags = [js ''h1'', js ''h2'', js ''h3'', js ''h4'', js ''h5'', js ''h6'']"

definition heading_types :: "jstring list" where
  "heading_types =
     [js ''section_h1'', js ''section_h2'', js ''section_h3'', js ''section_h4'', js ''section_h5'', js ''section_h6'']"

text \<open>
  A section is either an intro section without a heading, or a section of a heading type
  whose heading is present and not empty after trimming.
\<close>

definition section_ok :: "ContentSection \<Rightarrow> bool" where
  "section_ok s =
     (stype s = js ''intro'' \<and> heading s = None
      \<or> stype s \<in> set heading_types
        \<and> (case heading s of None \<Rightarrow> False | Some h \<Rightarrow> trim h \<noteq> []))"

text \<open>
  A content root holds paragraphs only when every node the traversal visits is a
  \<^verbatim>\<open>p\<close> element; \<open>nonempty_paragraphs\<close> are the trimmed texts of those that are not
  empty.
\<close>

definition only_paragraphs :: "node \<Rightarrow> bool" where
  "only_paragraphs blogContent =
     list_all (\<lambda>el. tagName el = js ''p'') (find_tags content_selector blogContent)"

definition nonempty_texts :: "node list \<Rightarrow> jstring list" where
  "nonempty_texts els = filter (\<lambda>t. t \<noteq> []) (map (\<lambda>el. trim (text_of el)) els)"

definition nonempty_paragraphs :: "node \<Rightarrow> jstring list" where
  "nonempty_paragraphs blogContent = nonempty_texts (find_tags [js ''p''] blogContent)"

text \<open>A list item of the content without any item.\<close>

definition has_empty_list :: "ContentSection \<Rightarrow> bool" where
  "has_empty_list s = (ListItems [] \<in> set (content s))"

text \<open>The invariant of the traversal: pushed sections are well formed and not empty.\<close>

definition walk_inv :: "ContentSection list \<times> ContentSection \<Rightarrow> bool" where
  "walk_inv st =
     (list_all (\<lambda>s. section_ok s \<and> content s \<noteq> []) (fst st) \<and> section_ok (snd st))"

definition no_empty_lists :: "ContentSection list \<times> ContentSection \<Rightarrow> bool" where
  "no_empty_lists st =
     (list_all (\<lambda>s. \<not> has_empty_list s) (fst st) \<and> \<not> has_empty_list (snd st))"

text \<open>The update of the latest date by one post, and by a list of posts.\<close>

definition later_date :: "(jstring \<Rightarrow> jsdate) \<Rightarrow> jsdate \<Rightarrow> BlogPost \<Rightarrow> jsdate" where
  "later_date Date_parse latestDate post =
     (if date_gt (Date_parse (lastmod post)) latestDate then Date_parse (lastmod post)
      else latestDate)"

definition latest_of :: "(jstring \<Rightarrow> jsdate) \<Rightarrow> jsdate \<Rightarrow> BlogPost list \<Rightarrow> jsdate" where
  "latest_of Date_parse latestDate posts = foldl (later_date Date_parse) latestDate posts"

text \<open>The posts of a listing that are newer than a cutoff.\<close>

definition newer_posts :: "(jstring \<Rightarrow> jsdate) \<Rightarrow> jsdate \<Rightarrow> BlogPost list \<Rightarrow> BlogPost list" where
  "newer_posts Date_parse cutoffDate posts =
     filter (\<lambda>post. date_gt (Date_parse (lastmod post)) cutoffDate) posts"

text \<open>
  The cards of a listing that end the traversal (dated before the cutoff), and the links
  of a list of cards.
\<close>

definition older_card :: "(jstring \<Rightarrow> jsdate) \<Rightarrow> jsdate \<Rightarrow> ArticleCard \<Rightarrow> bool" where
  "older_card Date_parse cutoffDate article =
     (case datetime article of
        None \<Rightarrow> False
      | Some s \<Rightarrow> s \<noteq> [] \<and> date_lt (Date_parse s) cutoffDate)"

definition card_links :: "ArticleCard list \<Rightarrow> jstring list" where
  "card_links articles =
     concat (map (\<lambda>a. case href a of None \<Rightarrow> [] | Some s \<Rightarrow> if s \<noteq> [] then [s] else []) articles)"

text \<open>
  The code units of a clean file name of the worker, and the strings with two hyphens in
  a row.
\<close>

definition slug_char :: "int \<Rightarrow> bool" where
  "slug_char c =
     (97 \<le> c \<and> c \<le> 122 \<or> 48 \<le> c \<and> c \<le> 57 \<or> c = 95 \<or> c = hyphen)"

fun double_hyphen :: "jstring \<Rightarrow> bool" where
  "double_hyphen (a # b # cs) = (a = hyphen \<and> b = hyphen \<or> double_hyphen (b # cs))"
| "double_hyphen cs = False"

text \<open>The worker's file name before it is cut to 100 code units.\<close>

definition uncut_filename :: "jstring \<Rightarrow> jstring" where
  "uncut_filename t =
     strip_edge_hyphens
       (replace_runs (\<lambda>c. c = hyphen)
         (replace_runs is_ws
           (filter (\<lambda>c. is_word c \<or> is_ws c \<or> c = hyphen) (toLowerCase t))))"

section \<open>Example inputs\<close>

text \<open>\<^verbatim>\<open><section><p> </p></section>\<close>: one paragraph of white space.\<close>

definition blank_paragraph_root :: node where
  "blank_paragraph_root = Element (js ''section'') [Element (js ''p'') [Text (js '' '')]]"

text \<open>
  \<^verbatim>\<open><section><p>Hello</p><p> </p><p>&nbsp;&emsp;</p><p><b>x</b> y</p></section>\<close>:
  the third paragraph holds the code units U+00A0 and U+2003.
\<close>

definition paragraphs_root :: node where
  "paragraphs_root =
     Element (js ''section'')
       [Element (js ''p'') [Text (js ''Hello'')],
        Element (js ''p'') [Text (js '' '')],
        Element (js ''p'') [Text [160, 8195]],
        Element (js ''p'') [Element (js ''b'') [Text (js ''x'')], Text (js '' y'')]]"

text \<open>\<^verbatim>\<open><section><ul>note<li> </li></ul></section>\<close>: a list with text of its own and one blank item.\<close>

definition stray_list_root :: node where
  "stray_list_root =
     Element (js ''section'') [Element (js ''ul'') [Text (js ''note''), Element (js ''li'') [Text (js '' '')]]]"

text \<open>A table of dates standing for the parser of date strings, and a sitemap of eight posts.\<close>

definition example_dates :: "jstring \<Rightarrow> jsdate" where
  "example_dates =
     map_of [(js ''d1'', 1), (js ''d2'', 2), (js ''d3'', 3), (js ''d4'', 4), (js ''d5'', 5), (js ''d6'', 6),
             (js ''d7'', 7), (js ''d9'', 9)]"

definition example_posts :: "BlogPost list" where
  "example_posts =
     map (\<lambda>d. \<lparr>post_url = js ''https://blog.peppercloud.com/'' @ d, lastmod = d\<rparr>)
       [js ''d3'', js ''d1'', js ''d5'', js ''never'', js ''d2'', js ''d4'', js ''d6'', js ''d9'']"

definition example_cards :: "ArticleCard list" where
  "example_cards =
     [\<lparr>datetime = Some (js ''d7''), href = Some (js ''/a/'')\<rparr>,
      \<lparr>datetime = None, href = Some (js ''/b/'')\<rparr>,
      \<lparr>datetime = Some (js ''d5''), href = Some (js ''/c/'')\<rparr>,
      \<lparr>datetime = Some (js ''d4''), href = Some (js ''/d/'')\<rparr>,
      \<lparr>datetime = None, href = Some (js ''/e/'')\<rparr>]"

text \<open>A store whose every read throws, and a site that serves one page at every URL.\<close>

definition failing_kv :: CloudflareKV where
  "failing_kv key = Inl KVError"

definition example_page :: Page where
  "example_page =
     \<lparr>title_text = js '' A Title '', excerpt_text = js ''An excerpt'', gh_content = Some scenario_root\<rparr>"

definition example_fetch :: "jstring \<Rightarrow> Page option" where
  "example_fetch u = Some example_page"

text \<open>A title of 101 code units: 99 letters, a space and one more letter.\<close>

definition long_title :: jstring where
  "long_title = replicate 99 letter_a @ js '' b''"


section \<open>The scenario of the specification\<close>

text \<open>
  Claim C1. For the content root
  \<^verbatim>\<open><section><h2>Intro Heading</h2><p>Hello world</p><h2>Next</h2><ul><li>A</li><li></li><li>B</li></ul></section>\<close>
  both extraction variants return exactly two sections, in this order: the section of type
  \<^verbatim>\<open>section_h2\<close> headed "Intro Heading" with the single paragraph "Hello world", and the
  section of type \<^verbatim>\<open>section_h2\<close> headed "Next" with the single list of the items "A"
  and "B". The empty list item is dropped and no intro section is emitted.
\<close>

theorem C1_scenario_sections:
  "extractSections scenario_root =
     [\<lparr>stype = js ''section_h2'', heading = Some (js ''Intro Heading''),
       content = [Paragraph (js ''Hello world'')]\<rparr>,
      \<lparr>stype = js ''section_h2'', heading = Some (js ''Next''),
       content = [ListItems [js ''A'', js ''B'']]\<rparr>]
   \<and> parseContent scenario_root =
     [\<lparr>stype = js ''section_h2'', heading = Some (js ''Intro Heading''),
       content = [Paragraph (js ''Hello world'')]\<rparr>,
      \<lparr>stype = js ''section_h2'', heading = Some (js ''Next''),
       content = [ListItems [js ''A'', js ''B'']]\<rparr>]"
  by code_simp

section \<open>Facts about literals, trimming and folding\<close>

lemma js_Nil [simp]: "js [] = []"
  by (simp add: js_def)

lemma js_Cons [simp]: "js (c # cs) = of_char c # js cs"
  by (simp add: js_def)

lemma trim_prefix_of_dropWhile:
  "dropWhile is_ws s = trim s @ rev (takeWhile is_ws (rev (dropWhile is_ws s)))"
  unfolding trim_def by (metis rev_append rev_rev_ident takeWhile_dropWhile_id)

lemma trim_Nil: "trim [] = []"
  by (simp add: trim_def)

lemma trim_hd_not_ws:
  assumes "trim s \<noteq> []"
  shows "\<not> is_ws (hd (trim s))"
proof -
  have ne: "dropWhile is_ws s \<noteq> []"
  proof
    assume "dropWhile is_ws s = []"
    then have "trim s = []" unfolding trim_def by (simp only: dropWhile.simps rev.simps)
    with assms show False by simp
  qed
  have "hd (dropWhile is_ws s) = hd (trim s)"
    using assms trim_prefix_of_dropWhile [of s] by (metis hd_append2)
  moreover have "\<not> is_ws (hd (dropWhile is_ws s))"
    using ne by (rule hd_dropWhile)
  ultimately show ?thesis by simp
qed

lemma trim_last_not_ws:
  assumes "trim s \<noteq> []"
  shows "\<not> is_ws (last (trim s))"
proof -
  from assms have ne: "dropWhile is_ws (rev (dropWhile is_ws s)) \<noteq> []"
    by (simp add: trim_def)
  have "last (trim s) = hd (dropWhile is_ws (rev (dropWhile is_ws s)))"
    using ne by (simp add: trim_def last_rev)
  with hd_dropWhile [OF ne] show ?thesis by simp
qed

lemma trim_idem: "trim (trim s) = trim s"
proof (cases "trim s = []")
  case True
  then show ?thesis by (simp add: trim_Nil)
next
  case False
  have a: "dropWhile is_ws (trim s) = trim s"
    using False trim_hd_not_ws [OF False] by (simp add: dropWhile_eq_self_iff)
  have "rev (trim s) \<noteq> []" using False by simp
  moreover have "hd (rev (trim s)) = last (trim s)"
    using False by (simp add: hd_rev)
  ultimately have b: "dropWhile is_ws (rev (trim s)) = rev (trim s)"
    using trim_last_not_ws [OF False] by (simp add: dropWhile_eq_self_iff)
  show ?thesis
    unfolding trim_def [of "trim s"] a b by simp
qed

lemma foldl_invariant:
  assumes "I st" and "\<And>s x. I s \<Longrightarrow> x \<in> set xs \<Longrightarrow> I (f s x)"
  shows "I (foldl f st xs)"
  using assms by (induction xs arbitrary: st) auto

section \<open>White space and letters outside ASCII\<close>

text \<open>
  A paragraph that holds only the code unit U+00A0 is empty after trimming and gives no
  section. In a title, U+00A0 and U+2003 are white space and become one hyphen of the
  worker's file name; U+0130 and U+212A leave the letters \<^verbatim>\<open>i\<close> and \<^verbatim>\<open>k\<close>.
\<close>

lemma nbsp_paragraph_dropped:
  "extractSections (Element (js ''section'') [Element (js ''p'') [Text [160]]]) = []
   \<and> parseContent (Element (js ''section'') [Element (js ''p'') [Text [160]]]) = []"
  by code_simp

lemma generateCleanFilename_nbsp:
  "generateCleanFilename (js ''a'' @ [160, 8195] @ js ''B'') = js ''a-b''"
  by code_simp

lemma generateCleanFilename_dotted_I:
  "generateCleanFilename ([304] @ js ''stanbul '' @ [8490]) = js ''istanbul-k''"
  by code_simp

section \<open>One step of the traversal\<close>

lemma toLowerCase_selector: "t \<in> set content_selector \<Longrightarrow> toLowerCase t = t"
  by (auto simp: content_selector_def toLowerCase_def lower_unit_def)

lemma selector_cases:
  "t \<in> set content_selector \<Longrightarrow> t \<in> set heading_tags \<or> t = js ''ul'' \<or> t = js ''ol'' \<or> t = js ''p''"
  by (auto simp: content_selector_def heading_tags_def)

lemma heading_tag_facts:
  assumes "t \<in> set heading_tags"
  shows "toLowerCase t = t" and "startsWith t (js ''h'')"
    and "js ''section_h'' @ parseInt_shown (charAt t 1) = js ''section_'' @ t"
    and "js ''section_'' @ t \<in> set heading_types"
  using assms
  by (auto simp: heading_tags_def toLowerCase_def lower_unit_def startsWith_def charAt_def
      parseInt_shown_def heading_types_def)

lemma other_tag_facts:
  assumes "t = js ''ul'' \<or> t = js ''ol'' \<or> t = js ''p''"
  shows "toLowerCase t = t" and "\<not> startsWith t (js ''h'')"
  using assms by (auto simp: toLowerCase_def lower_unit_def startsWith_def)

lemma extractSections_step_empty:
  "trim (text_of el) = [] \<Longrightarrow> extractSections_step st el = st"
  by (simp add: extractSections_step_def)

lemma extractSections_step_heading:
  assumes "t \<in> set heading_tags" and "trim (text_of (Element t cs)) \<noteq> []"
  shows "extractSections_step (secs, cur) (Element t cs) =
    (if content cur \<noteq> [] then secs @ [cur] else secs,
     \<lparr>stype = js ''section_'' @ t, heading = Some (trim (text_of (Element t cs))), content = []\<rparr>)"
  using assms(2) heading_tag_facts [OF assms(1)]
  by (simp add: extractSections_step_def Let_def del: text_of.simps)


lemma extractSections_step_list:
  assumes "t = js ''ul'' \<or> t = js ''ol''" and "trim (text_of (Element t cs)) \<noteq> []"
  shows "extractSections_step (secs, cur) (Element t cs) =
    (if list_items (Element t cs) \<noteq> []
     then (secs, cur\<lparr>content := content cur @ [ListItems (list_items (Element t cs))]\<rparr>)
     else (secs, cur))"
proof -
  from assms(1) have "t = js ''ul'' \<or> t = js ''ol'' \<or> t = js ''p''" by blast
  from other_tag_facts [OF this] assms show ?thesis
    by (simp add: extractSections_step_def Let_def del: text_of.simps)
qed

lemma extractSections_step_paragraph:
  assumes "trim (text_of (Element (js ''p'') cs)) \<noteq> []"
  shows "extractSections_step (secs, cur) (Element (js ''p'') cs) =
    (secs, cur\<lparr>content := content cur @ [Paragraph (trim (text_of (Element (js ''p'') cs)))]\<rparr>)"
proof -
  have "js ''p'' = js ''ul'' \<or> js ''p'' = js ''ol'' \<or> js ''p'' = js ''p''" by simp
  from other_tag_facts [OF this] assms show ?thesis
    by (simp add: extractSections_step_def Let_def del: text_of.simps)
qed

lemma parseContent_step_empty:
  "trim (text_of el) = [] \<Longrightarrow> parseContent_step st el = st"
  by (simp add: parseContent_step_def)

lemma parseContent_step_heading:
  assumes "t \<in> set heading_tags" and "trim (text_of (Element t cs)) \<noteq> []"
  shows "parseContent_step (secs, cur) (Element t cs) =
    (if content cur \<noteq> [] then secs @ [cur] else secs,
     \<lparr>stype = js ''section_'' @ t, heading = Some (trim (text_of (Element t cs))), content = []\<rparr>)"
  using assms(2) heading_tag_facts [OF assms(1)]
  by (simp add: parseContent_step_def Let_def del: text_of.simps)

lemma parseContent_step_list:
  assumes "t = js ''ul'' \<or> t = js ''ol''" and "trim (text_of (Element t cs)) \<noteq> []"
  shows "parseContent_step (secs, cur) (Element t cs) =
    (secs, cur\<lparr>content := content cur @ [ListItems (list_items (Element t cs))]\<rparr>)"
proof -
  from assms(1) have "t = js ''ul'' \<or> t = js ''ol'' \<or> t = js ''p''" by blast
  from other_tag_facts [OF this] assms show ?thesis
    by (simp add: parseContent_step_def Let_def del: text_of.simps)
qed

lemma parseContent_step_paragraph:
  assumes "trim (text_of (Element (js ''p'') cs)) \<noteq> []"
  shows "parseContent_step (secs, cur) (Element (js ''p'') cs) =
    (secs, cur\<lparr>content := content cur @ [Paragraph (trim (text_of (Element (js ''p'') cs)))]\<rparr>)"
proof -
  have "js ''p'' = js ''ul'' \<or> js ''p'' = js ''ol'' \<or> js ''p'' = js ''p''" by simp
  from other_tag_facts [OF this] assms show ?thesis
    by (simp add: parseContent_step_def Let_def del: text_of.simps)
qed

section \<open>The invariant of the traversal\<close>

lemma section_ok_heading:
  "t \<in> set heading_tags \<Longrightarrow> trim x \<noteq> [] \<Longrightarrow>
   section_ok \<lparr>stype = js ''section_'' @ t, heading = Some (trim x), content = c\<rparr>"
  using heading_tag_facts(4) [of t] by (simp add: section_ok_def trim_idem)

lemma section_ok_content_update: "section_ok (s\<lparr>content := c\<rparr>) = section_ok s"
  by (simp add: section_ok_def)

lemma extractSections_step_inv:
  assumes "has_tag content_selector el" and "walk_inv st"
  shows "walk_inv (extractSections_step st el)"
proof (cases "trim (text_of el) = []")
  case True
  with assms(2) show ?thesis by (simp add: extractSections_step_empty)
next
  case False
  obtain secs cur where st: "st = (secs, cur)" by (cases st)
  from assms(1) obtain t cs where el: "el = Element t cs" and t: "t \<in> set content_selector"
    by (cases el) auto
  from selector_cases [OF t] consider
    "t \<in> set heading_tags" | "t = js ''ul'' \<or> t = js ''ol''" | "t = js ''p''" by blast
  then show ?thesis
  proof cases
    case 1
    from False have ne: "trim (text_of (Element t cs)) \<noteq> []" by (simp add: el)
    show ?thesis
      using assms(2) section_ok_heading [OF 1 ne]
      unfolding st el extractSections_step_heading [OF 1 ne]
      by (simp add: walk_inv_def)
  next
    case 2
    from False have ne: "trim (text_of (Element t cs)) \<noteq> []" by (simp add: el)
    show ?thesis
      using assms(2)
      unfolding st el extractSections_step_list [OF 2 ne]
      by (simp add: walk_inv_def section_ok_content_update)
  next
    case 3
    from False have ne: "trim (text_of (Element (js ''p'') cs)) \<noteq> []" by (simp add: el 3)
    show ?thesis
      using assms(2)
      unfolding st el 3 extractSections_step_paragraph [OF ne]
      by (simp add: walk_inv_def section_ok_content_update)
  qed
qed

lemma parseContent_step_inv:
  assumes "has_tag content_selector el" and "walk_inv st"
  shows "walk_inv (parseContent_step st el)"
proof (cases "trim (text_of el) = []")
  case True
  with assms(2) show ?thesis by (simp add: parseContent_step_empty)
next
  case False
  obtain secs cur where st: "st = (secs, cur)" by (cases st)
  from assms(1) obtain t cs where el: "el = Element t cs" and t: "t \<in> set content_selector"
    by (cases el) auto
  from selector_cases [OF t] consider
    "t \<in> set heading_tags" | "t = js ''ul'' \<or> t = js ''ol''" | "t = js ''p''" by blast
  then show ?thesis
  proof cases
    case 1
    from False have ne: "trim (text_of (Element t cs)) \<noteq> []" by (simp add: el)
    show ?thesis
      using assms(2) section_ok_heading [OF 1 ne]
      unfolding st el parseContent_step_heading [OF 1 ne]
      by (simp add: walk_inv_def)
  next
    case 2
    from False have ne: "trim (text_of (Element t cs)) \<noteq> []" by (simp add: el)
    show ?thesis
      using assms(2)
      unfolding st el parseContent_step_list [OF 2 ne]
      by (simp add: walk_inv_def section_ok_content_update)
  next
    case 3
    from False have ne: "trim (text_of (Element (js ''p'') cs)) \<noteq> []" by (simp add: el 3)
    show ?thesis
      using assms(2)
      unfolding st el 3 parseContent_step_paragraph [OF ne]
      by (simp add: walk_inv_def section_ok_content_update)
  qed
qed

lemma walk_inv_init: "walk_inv ([], intro_section)"
  by (simp add: walk_inv_def intro_section_def section_ok_def)

lemma find_tags_has_tag: "el \<in> set (find_tags sel n) \<Longrightarrow> has_tag sel el"
  by (simp add: find_tags_def)

lemma walk_inv_finish:
  assumes "walk_inv st" and "s \<in> set (finish_sections st)"
  shows "section_ok s \<and> content s \<noteq> []"
  using assms by (auto simp: walk_inv_def finish_sections_def list_all_iff split: if_splits)

lemma extractSections_walk_inv:
  "walk_inv (foldl extractSections_step ([], intro_section) (find_tags content_selector root))"
  by (rule foldl_invariant [where I = walk_inv, OF walk_inv_init])
     (auto intro: extractSections_step_inv find_tags_has_tag)

lemma parseContent_walk_inv:
  "walk_inv (foldl parseContent_step ([], intro_section) (find_tags content_selector root))"
  by (rule foldl_invariant [where I = walk_inv, OF walk_inv_init])
     (auto intro: parseContent_step_inv find_tags_has_tag)

text \<open>
  Claim C8. For every content root, every section that either extraction variant returns
  has content that is not empty, and is either an intro section without a heading or a
  section of a heading type (\<^verbatim>\<open>section_h1\<close> to \<^verbatim>\<open>section_h6\<close>) whose heading is
  present and not empty after trimming.
\<close>

theorem C8_sections_wellformed:
  assumes "s \<in> set (extractSections root) \<or> s \<in> set (parseContent root)"
  shows "content s \<noteq> []
    \<and> (stype s = js ''intro'' \<and> heading s = None
       \<or> stype s \<in> set heading_types \<and> (\<exists>h. heading s = Some h \<and> trim h \<noteq> []))"
proof -
  from assms have "section_ok s \<and> content s \<noteq> []"
    unfolding extractSections_def parseContent_def
    using walk_inv_finish [OF extractSections_walk_inv] walk_inv_finish [OF parseContent_walk_inv]
    by blast
  then show ?thesis
    by (auto simp: section_ok_def split: option.splits)
qed

theorem C8_sections_wellformed_witness:
  "\<lparr>stype = js ''section_h2'', heading = Some (js ''Next''), content = [ListItems [js ''A'', js ''B'']]\<rparr>
     \<in> set (extractSections scenario_root)
   \<and> content \<lparr>stype = js ''section_h2'', heading = Some (js ''Next''),
        content = [ListItems [js ''A'', js ''B'']]\<rparr> \<noteq> []
   \<and> js ''section_h2'' \<in> set heading_types
   \<and> (\<exists>h. heading \<lparr>stype = js ''section_h2'', heading = Some (js ''Next''),
        content = [ListItems [js ''A'', js ''B'']]\<rparr> = Some h \<and> trim h \<noteq> [])"
proof -
  have h: "\<lparr>stype = js ''section_h2'', heading = Some (js ''Next''), content = [ListItems [js ''A'', js ''B'']]\<rparr>
     \<in> set (extractSections scenario_root)"
    by code_simp
  from C8_sections_wellformed [OF disjI1 [OF h]] h show ?thesis
    by simp
qed

section \<open>Content roots that hold paragraphs only\<close>

lemma only_paragraphs_find:
  assumes "only_paragraphs root"
  shows "find_tags content_selector root = find_tags [js ''p''] root"
  unfolding find_tags_def
proof (rule filter_cong [OF refl])
  fix d assume d: "d \<in> set (descendants root)"
  show "has_tag content_selector d = has_tag [js ''p''] d"
  proof
    assume h: "has_tag content_selector d"
    with d have "d \<in> set (find_tags content_selector root)" by (simp add: find_tags_def)
    with assms have "tagName d = js ''p''" by (simp add: only_paragraphs_def list_all_iff)
    with h show "has_tag [js ''p''] d" by (cases d) auto
  next
    assume "has_tag [js ''p''] d"
    then show "has_tag content_selector d" by (cases d) (auto simp: content_selector_def)
  qed
qed

lemma foldl_extractSections_paragraphs:
  assumes "list_all (has_tag [js ''p'']) els"
  shows "foldl extractSections_step (secs, cur) els =
           (secs, cur\<lparr>content := content cur @ map Paragraph (nonempty_texts els)\<rparr>)"
  using assms
proof (induction els arbitrary: cur)
  case Nil
  then show ?case by (simp add: nonempty_texts_def)
next
  case (Cons el els)
  then obtain cs where el: "el = Element (js ''p'') cs" by (cases el) auto
  from Cons have rest: "list_all (has_tag [js ''p'']) els" by simp
  show ?case
  proof (cases "trim (text_of el) = []")
    case True
    then show ?thesis
      using Cons.IH [OF rest, of cur]
      by (simp add: extractSections_step_empty nonempty_texts_def)
  next
    case False
    then have ne: "trim (text_of (Element (js ''p'') cs)) \<noteq> []" by (simp add: el)
    show ?thesis
      using False Cons.IH [OF rest]
      unfolding el foldl_Cons extractSections_step_paragraph [OF ne]
      by (simp add: nonempty_texts_def del: text_of.simps)
  qed
qed

lemma foldl_parseContent_paragraphs:
  assumes "list_all (has_tag [js ''p'']) els"
  shows "foldl parseContent_step (secs, cur) els =
           (secs, cur\<lparr>content := content cur @ map Paragraph (nonempty_texts els)\<rparr>)"
  using assms
proof (induction els arbitrary: cur)
  case Nil
  then show ?case by (simp add: nonempty_texts_def)
next
  case (Cons el els)
  then obtain cs where el: "el = Element (js ''p'') cs" by (cases el) auto
  from Cons have rest: "list_all (has_tag [js ''p'']) els" by simp
  show ?case
  proof (cases "trim (text_of el) = []")
    case True
    then show ?thesis
      using Cons.IH [OF rest, of cur]
      by (simp add: parseContent_step_empty nonempty_texts_def)
  next
    case False
    then have ne: "trim (text_of (Element (js ''p'') cs)) \<noteq> []" by (simp add: el)
    show ?thesis
      using False Cons.IH [OF rest]
      unfolding el foldl_Cons parseContent_step_paragraph [OF ne]
      by (simp add: nonempty_texts_def del: text_of.simps)
  qed
qed

lemma find_tags_all: "list_all (has_tag sel) (find_tags sel n)"
  by (simp add: find_tags_def list_all_iff)

text \<open>
  Claim C5, as the code has it. For a content root in which every node the traversal visits
  is a paragraph, both extraction variants return the same result: no section at all when
  every paragraph is empty after trimming, and otherwise exactly one intro section whose
  content is the trimmed text of the non-empty paragraphs, in document order (so its length
  is the number of non-empty paragraphs).
\<close>

theorem C5_paragraphs_only:
  assumes "only_paragraphs root"
  shows "extractSections root =
           (if nonempty_paragraphs root = [] then []
            else [\<lparr>stype = js ''intro'', heading = None,
                   content = map Paragraph (nonempty_paragraphs root)\<rparr>])
       \<and> parseContent root = extractSections root"
proof -
  let ?ps = "find_tags [js ''p''] root"
  have f: "find_tags content_selector root = ?ps"
    by (rule only_paragraphs_find [OF assms])
  have a: "foldl extractSections_step ([], intro_section) ?ps =
      ([], intro_section\<lparr>content := content intro_section @ map Paragraph (nonempty_texts ?ps)\<rparr>)"
    by (rule foldl_extractSections_paragraphs [OF find_tags_all])
  have b: "foldl parseContent_step ([], intro_section) ?ps =
      ([], intro_section\<lparr>content := content intro_section @ map Paragraph (nonempty_texts ?ps)\<rparr>)"
    by (rule foldl_parseContent_paragraphs [OF find_tags_all])
  show ?thesis
    unfolding extractSections_def parseContent_def f a b nonempty_paragraphs_def
    by (simp add: finish_sections_def intro_section_def)
qed

text \<open>The theorem at a root with three paragraphs, one of them blank.\<close>

theorem C5_paragraphs_only_witness:
  "only_paragraphs paragraphs_root
   \<and> extractSections paragraphs_root =
       [\<lparr>stype = js ''intro'', heading = None, content = [Paragraph (js ''Hello''), Paragraph (js ''x y'')]\<rparr>]
   \<and> parseContent paragraphs_root =
       [\<lparr>stype = js ''intro'', heading = None, content = [Paragraph (js ''Hello''), Paragraph (js ''x y'')]\<rparr>]"
proof -
  have h: "only_paragraphs paragraphs_root" by code_simp
  have n: "nonempty_paragraphs paragraphs_root = [js ''Hello'', js ''x y'']" by code_simp
  from C5_paragraphs_only [OF h] h n show ?thesis by simp
qed

text \<open>
  Claim C5 as it is stated fails for a root whose only paragraph is blank: no section is
  produced, where the claim promises exactly one intro section.
\<close>

theorem C5_blank_paragraph_counterexample:
  "only_paragraphs blank_paragraph_root
   \<and> extractSections blank_paragraph_root = []
   \<and> parseContent blank_paragraph_root = []"
  by code_simp

section \<open>Lists without items\<close>

lemma extractSections_step_no_empty_lists:
  assumes "has_tag content_selector el" and "no_empty_lists st"
  shows "no_empty_lists (extractSections_step st el)"
proof (cases "trim (text_of el) = []")
  case True
  with assms(2) show ?thesis by (simp add: extractSections_step_empty)
next
  case False
  obtain secs cur where st: "st = (secs, cur)" by (cases st)
  from assms(1) obtain t cs where el: "el = Element t cs" and t: "t \<in> set content_selector"
    by (cases el) auto
  from False have ne: "trim (text_of (Element t cs)) \<noteq> []" by (simp add: el)
  from selector_cases [OF t] consider
    "t \<in> set heading_tags" | "t = js ''ul'' \<or> t = js ''ol''" | "t = js ''p''" by blast
  then show ?thesis
  proof cases
    case 1
    show ?thesis
      using assms(2)
      unfolding st el extractSections_step_heading [OF 1 ne]
      by (simp add: no_empty_lists_def has_empty_list_def)
  next
    case 2
    show ?thesis
      using assms(2)
      unfolding st el extractSections_step_list [OF 2 ne]
      by (simp add: no_empty_lists_def has_empty_list_def)
  next
    case 3
    from ne have ne': "trim (text_of (Element (js ''p'') cs)) \<noteq> []" by (simp add: 3)
    show ?thesis
      using assms(2)
      unfolding st el 3 extractSections_step_paragraph [OF ne']
      by (simp add: no_empty_lists_def has_empty_list_def)
  qed
qed

lemma extractSections_no_empty_list:
  "list_all (\<lambda>s. \<not> has_empty_list s) (extractSections root)"
proof -
  have init: "no_empty_lists ([], intro_section)"
    by (simp add: no_empty_lists_def has_empty_list_def intro_section_def)
  have "no_empty_lists
          (foldl extractSections_step ([], intro_section) (find_tags content_selector root))"
    by (rule foldl_invariant [where I = no_empty_lists, OF init])
       (auto intro: extractSections_step_no_empty_lists find_tags_has_tag)
  then show ?thesis
    by (simp add: extractSections_def finish_sections_def no_empty_lists_def)
qed

text \<open>
  Claim C2 at the content root \<^verbatim>\<open><section><ul>note<li> </li></ul></section>\<close>. Every list
  item of the list is empty after trimming, but the list has text of its own. The worker's
  \<^verbatim>\<open>parseContent\<close> places a list without items in the intro section; the command-line
  \<^verbatim>\<open>extractSections\<close> places nothing.
\<close>

theorem C2_worker_empty_list:
  "list_items (Element (js ''ul'') [Text (js ''note''), Element (js ''li'') [Text (js '' '')]]) = []
   \<and> parseContent stray_list_root =
       [\<lparr>stype = js ''intro'', heading = None, content = [ListItems []]\<rparr>]
   \<and> extractSections stray_list_root = []"
  by code_simp

section \<open>The watermark of the crawl loop\<close>

lemma run_loop_take:
  assumes "n < 5"
  shows "run_loop P posts (l, n, acc) =
     (latest_of P l (take (5 - n) posts), n + length (take (5 - n) posts), acc @ take (5 - n) posts)"
  using assms
proof (induction posts arbitrary: l n acc)
  case Nil
  then show ?case by (simp add: latest_of_def)
next
  case (Cons post rest)
  show ?case
  proof (cases "n + 1 \<ge> 5")
    case True
    with Cons.prems have n: "n = 4" by simp
    show ?thesis by (simp add: n Let_def latest_of_def later_date_def)
  next
    case False
    then have lt: "n + 1 < 5" by simp
    from lt have "5 - n = Suc (5 - (n + 1))" by simp
    then have t: "take (5 - n) (post # rest) = post # take (5 - (n + 1)) rest"
      by (simp only: take_Suc_Cons)
    show ?thesis
      using False Cons.IH [OF lt] unfolding t
      by (simp add: Let_def latest_of_def later_date_def)
  qed
qed

lemma latest_of_Some:
  "\<exists>b. latest_of P (Some a) ps = Some b \<and> a \<le> b"
proof (induction ps arbitrary: a)
  case Nil
  then show ?case by (simp add: latest_of_def)
next
  case (Cons p ps)
  show ?case
  proof (cases "date_gt (P (lastmod p)) (Some a)")
    case True
    then obtain t where t: "P (lastmod p) = Some t" "a < t"
      by (cases "P (lastmod p)") auto
    from Cons.IH [of t] obtain b where "latest_of P (Some t) ps = Some b" "t \<le> b" by blast
    with t True show ?thesis by (simp add: latest_of_def later_date_def)
  next
    case False
    with Cons.IH [of a] show ?thesis by (simp add: latest_of_def later_date_def)
  qed
qed

lemma later_date_Some:
  "\<exists>b. later_date P (Some a) q = Some b \<and> a \<le> b \<and> \<not> date_gt (P (lastmod q)) (Some b)"
proof (cases "P (lastmod q)")
  case None
  then show ?thesis by (simp add: later_date_def)
next
  case (Some t)
  then show ?thesis by (cases "a < t") (simp_all add: later_date_def)
qed

lemma latest_of_upper:
  assumes "p \<in> set ps"
  shows "\<not> date_gt (P (lastmod p)) (latest_of P (Some a) ps)"
  using assms
proof (induction ps arbitrary: a)
  case Nil
  then show ?case by simp
next
  case (Cons q ps)
  from later_date_Some [of P a q]
  obtain a' where a': "later_date P (Some a) q = Some a'" "a \<le> a'"
    "\<not> date_gt (P (lastmod q)) (Some a')"
    by blast
  have unf: "latest_of P (Some a) (q # ps) = latest_of P (Some a') ps"
    by (simp add: latest_of_def a')
  show ?case
  proof (cases "p \<in> set ps")
    case True
    from Cons.IH [OF True, of a'] show ?thesis by (simp add: unf)
  next
    case False
    with Cons.prems have pq: "p = q" by simp
    from latest_of_Some [of P a' ps] obtain b where b: "latest_of P (Some a') ps = Some b" "a' \<le> b"
      by blast
    from a'(3) b show ?thesis
      by (cases "P (lastmod q)") (auto simp: unf pq)
  qed
qed

lemma latest_of_attained:
  "latest_of P l ps = l \<or> latest_of P l ps \<in> set (map (\<lambda>p. P (lastmod p)) ps)"
proof (induction ps arbitrary: l)
  case Nil
  then show ?case by (simp add: latest_of_def)
next
  case (Cons q ps)
  have unf: "latest_of P l (q # ps) = latest_of P (later_date P l q) ps"
    by (simp add: latest_of_def)
  from Cons.IH [of "later_date P l q"] show ?case
    unfolding unf by (auto simp: later_date_def split: if_splits)
qed

lemma latest_of_newer:
  assumes "ps \<noteq> []" and "list_all (\<lambda>p. date_gt (P (lastmod p)) (Some a)) ps"
  shows "date_gt (latest_of P (Some a) ps) (Some a)"
proof -
  from assms obtain q qs where ps: "ps = q # qs" by (cases ps) auto
  with assms(2) obtain t where t: "P (lastmod q) = Some t" "a < t"
    by (cases "P (lastmod q)") auto
  then have "latest_of P (Some a) ps = latest_of P (Some t) qs"
    by (simp add: ps latest_of_def later_date_def)
  with latest_of_Some [of P t qs] t show ?thesis by auto
qed


lemma run_None: "run P None posts = \<lparr>attempted = [], written = []\<rparr>"
  by (simp add: run_def)

lemma run_nothing_new:
  "newer_posts P (Some a) posts = [] \<Longrightarrow> run P (Some a) posts = \<lparr>attempted = [], written = []\<rparr>"
  by (simp add: run_def getRecentPosts_def newer_posts_def)

lemma newer_posts_all:
  "list_all (\<lambda>p. date_gt (P (lastmod p)) c) (take k (newer_posts P c posts))"
  by (auto simp: newer_posts_def list_all_iff dest: in_set_takeD)

lemma run_Some:
  assumes "newer_posts P (Some a) posts \<noteq> []"
  shows "run P (Some a) posts =
     \<lparr>attempted = take 5 (newer_posts P (Some a) posts),
      written = [latest_of P (Some a) (take 5 (newer_posts P (Some a) posts))]\<rparr>"
proof -
  have loop: "run_loop P (newer_posts P (Some a) posts) (Some a, 0, []) =
      (latest_of P (Some a) (take 5 (newer_posts P (Some a) posts)),
       length (take 5 (newer_posts P (Some a) posts)),
       take 5 (newer_posts P (Some a) posts))"
    using run_loop_take [of 0 P "newer_posts P (Some a) posts" "Some a" "[]"] by simp
  from assms have ne: "take 5 (newer_posts P (Some a) posts) \<noteq> []" by simp
  have gt: "date_gt (latest_of P (Some a) (take 5 (newer_posts P (Some a) posts))) (Some a)"
    by (rule latest_of_newer [OF ne newer_posts_all])
  have rp: "getRecentPosts P (Some a) posts = Inr (newer_posts P (Some a) posts)"
    by (simp add: getRecentPosts_def newer_posts_def)
  show ?thesis
    unfolding run_def rp using assms gt by (simp add: loop)
qed

text \<open>
  Claim C6. In every run of the crawl loop, whatever date was loaded and whatever the
  sitemap gave: \<^verbatim>\<open>updateLastProcessedDate\<close> is called at most once; at most five posts
  are attempted, and they are the first five of the posts newer than the loaded date; a
  date that is written is strictly later than the loaded date, is the date of one of the
  posts attempted, and no post attempted is later than it. So the date written is the
  maximum over the posts attempted, not over all the posts discovered.
\<close>

theorem C6_watermark_once_and_newer:
  assumes "run Date_parse lastProcessedDate allPosts = out"
  shows "length (written out) \<le> 1
    \<and> length (attempted out) \<le> 5
    \<and> (attempted out = []
       \<or> attempted out = take 5 (newer_posts Date_parse lastProcessedDate allPosts))
    \<and> (\<forall>v\<in>set (written out).
          date_gt v lastProcessedDate
          \<and> v \<in> set (map (\<lambda>post. Date_parse (lastmod post)) (attempted out))
          \<and> (\<forall>post\<in>set (attempted out). \<not> date_gt (Date_parse (lastmod post)) v))"
proof (cases lastProcessedDate)
  case None
  with assms show ?thesis by (auto simp: run_None)
next
  case (Some a)
  show ?thesis
  proof (cases "newer_posts Date_parse (Some a) allPosts = []")
    case True
    from run_nothing_new [OF True] assms Some
    have "out = \<lparr>attempted = [], written = []\<rparr>" by simp
    then show ?thesis by simp
  next
    case False
    let ?att = "take 5 (newer_posts Date_parse (Some a) allPosts)"
    let ?v = "latest_of Date_parse (Some a) ?att"
    from run_Some [OF False] assms Some
    have out: "out = \<lparr>attempted = ?att, written = [?v]\<rparr>" by simp
    from False have ne: "?att \<noteq> []" by simp
    have gt: "date_gt ?v (Some a)"
      by (rule latest_of_newer [OF ne newer_posts_all])
    then have "?v \<noteq> Some a" by (cases ?v) auto
    with latest_of_attained [of Date_parse "Some a" ?att]
    have att: "?v \<in> set (map (\<lambda>post. Date_parse (lastmod post)) ?att)" by blast
    have up: "\<forall>post\<in>set ?att. \<not> date_gt (Date_parse (lastmod post)) ?v"
      using latest_of_upper by blast
    show ?thesis
      unfolding out Some using gt att up by simp
  qed
qed

text \<open>
  A run over eight discovered posts of which six are newer than the loaded date 1: the
  first five of them are attempted and 6 is written, although the sixth has the date 9.
\<close>

theorem C6_watermark_witness:
  "run example_dates (Some 1) example_posts =
     \<lparr>attempted = [example_posts ! 0, example_posts ! 2, example_posts ! 4,
                    example_posts ! 5, example_posts ! 6],
      written = [Some 6]\<rparr>
   \<and> date_gt (Some 6) (Some 1)
   \<and> example_dates (lastmod (example_posts ! 7)) = Some 9"
proof -
  have r: "run example_dates (Some 1) example_posts =
     \<lparr>attempted = [example_posts ! 0, example_posts ! 2, example_posts ! 4,
                    example_posts ! 5, example_posts ! 6],
      written = [Some 6]\<rparr>"
    by code_simp
  have d: "example_dates (lastmod (example_posts ! 7)) = Some 9" by code_simp
  from C6_watermark_once_and_newer [OF r]
  have "\<forall>v\<in>set [Some 6]. date_gt v (Some 1)" by simp
  then have "date_gt (Some 6) (Some 1)" by simp
  with r d show ?thesis by blast
qed

section \<open>Recency filters\<close>

lemma getRecentPosts_Some:
  "getRecentPosts P (Some c) posts = Inr (newer_posts P (Some c) posts)"
  by (simp add: getRecentPosts_def newer_posts_def)

lemma newer_posts_iff:
  "post \<in> set (newer_posts P (Some c) posts) \<longleftrightarrow>
     post \<in> set posts \<and> (\<exists>t. P (lastmod post) = Some t \<and> c < t)"
  by (cases "P (lastmod post)") (auto simp: newer_posts_def)

lemma newer_posts_mono:
  assumes "c1 \<le> c2"
  shows "newer_posts P (Some c2) posts =
           filter (\<lambda>post. date_gt (P (lastmod post)) (Some c2)) (newer_posts P (Some c1) posts)"
proof -
  have "\<And>d. date_gt d (Some c2) \<Longrightarrow> date_gt d (Some c1)"
  proof -
    fix d assume "date_gt d (Some c2)"
    with assms show "date_gt d (Some c1)" by (cases d) auto
  qed
  then show ?thesis
    unfolding newer_posts_def filter_filter by (auto intro: filter_cong)
qed

lemma recentBlogUrls_loop_takeWhile:
  "recentBlogUrls_loop P c cards = card_links (takeWhile (\<lambda>a. \<not> older_card P c a) cards)"
proof (induction cards)
  case Nil
  then show ?case by (simp add: card_links_def)
next
  case (Cons a cards)
  have stop: "(truthy (datetime a)
       \<and> date_lt (P (case datetime a of Some s \<Rightarrow> s | None \<Rightarrow> [])) c) = older_card P c a"
    by (simp add: truthy_def older_card_def split: option.splits)
  have link: "(if truthy (href a) then [case href a of Some s \<Rightarrow> s | None \<Rightarrow> []] else []) =
      card_links [a]"
    by (simp add: truthy_def card_links_def split: option.splits)
  have app: "card_links (a # takeWhile (\<lambda>a. \<not> older_card P c a) cards) =
      card_links [a] @ card_links (takeWhile (\<lambda>a. \<not> older_card P c a) cards)"
    by (simp add: card_links_def)
  show ?case
    unfolding recentBlogUrls_loop.simps stop link Cons.IH
    by (simp add: app card_links_def)
qed

lemma older_card_mono:
  assumes "c1 \<le> c2" and "older_card P (Some c1) a"
  shows "older_card P (Some c2) a"
proof (cases "datetime a")
  case None
  with assms(2) show ?thesis by (simp add: older_card_def)
next
  case (Some s)
  with assms show ?thesis
    by (cases "P s") (auto simp: older_card_def)
qed

lemma takeWhile_weaker_prefix:
  assumes "\<And>x. Q2 x \<Longrightarrow> Q1 x"
  shows "\<exists>zs. takeWhile Q1 xs = takeWhile Q2 xs @ zs"
  using assms by (induction xs) auto

lemma card_links_append: "card_links (xs @ ys) = card_links xs @ card_links ys"
  by (simp add: card_links_def)

lemma recentBlogUrls_loop_prefix:
  assumes "c1 \<le> c2"
  shows "\<exists>more. recentBlogUrls_loop P (Some c1) cards = recentBlogUrls_loop P (Some c2) cards @ more"
proof -
  have "\<And>a. \<not> older_card P (Some c2) a \<Longrightarrow> \<not> older_card P (Some c1) a"
    using older_card_mono [OF assms] by blast
  from takeWhile_weaker_prefix [of "\<lambda>a. \<not> older_card P (Some c2) a"
      "\<lambda>a. \<not> older_card P (Some c1) a" cards, OF this]
  obtain zs where "takeWhile (\<lambda>a. \<not> older_card P (Some c1) a) cards =
      takeWhile (\<lambda>a. \<not> older_card P (Some c2) a) cards @ zs"
    by blast
  then show ?thesis
    unfolding recentBlogUrls_loop_takeWhile by (simp add: card_links_append)
qed

text \<open>
  Claim C7, as the code has it. For cutoffs \<open>c1 \<le> c2\<close>: the sitemap filter returns, for
  the cutoff \<open>c1\<close>, exactly the posts whose date parses and is strictly later than
  \<open>c1\<close>, and what it returns for \<open>c2\<close> is a subset of that and no longer; the links the
  HTML listing filter returns for \<open>c2\<close> are an initial part of those it returns for
  \<open>c1\<close>; and the listing filter returns the links of the cards before the first card
  whose \<^verbatim>\<open>datetime\<close> is present and parses to a date strictly before the cutoff. A card
  dated exactly at the cutoff, and a card without \<^verbatim>\<open>datetime\<close>, do not end the traversal.
\<close>

theorem C7_recency_filters:
  assumes "c1 \<le> c2"
  shows "(\<exists>r1 r2. getRecentPosts Date_parse (Some c1) posts = Inr r1
            \<and> getRecentPosts Date_parse (Some c2) posts = Inr r2
            \<and> set r2 \<subseteq> set r1 \<and> length r2 \<le> length r1
            \<and> r1 = filter (\<lambda>post. case Date_parse (lastmod post) of
                                      None \<Rightarrow> False | Some t \<Rightarrow> c1 < t) posts)
    \<and> (\<exists>more. getRecentBlogUrls Date_parse (Some c1) (Some cards) =
                 getRecentBlogUrls Date_parse (Some c2) (Some cards) @ more)
    \<and> getRecentBlogUrls Date_parse (Some c1) (Some cards) =
        card_links (takeWhile (\<lambda>a. \<not> older_card Date_parse (Some c1) a) cards)"
proof -
  let ?r1 = "newer_posts Date_parse (Some c1) posts"
  let ?r2 = "newer_posts Date_parse (Some c2) posts"
  have r2: "?r2 = filter (\<lambda>post. date_gt (Date_parse (lastmod post)) (Some c2)) ?r1"
    by (rule newer_posts_mono [OF assms])
  have sub: "set ?r2 \<subseteq> set ?r1" by (subst r2) auto
  have len: "length ?r2 \<le> length ?r1" by (subst r2) (rule length_filter_le)
  have ex: "?r1 = filter (\<lambda>post. case Date_parse (lastmod post) of
                                      None \<Rightarrow> False | Some t \<Rightarrow> c1 < t) posts"
    unfolding newer_posts_def
    by (rule filter_cong [OF refl]) (simp split: option.splits)
  have a: "\<exists>r1 r2. getRecentPosts Date_parse (Some c1) posts = Inr r1
            \<and> getRecentPosts Date_parse (Some c2) posts = Inr r2
            \<and> set r2 \<subseteq> set r1 \<and> length r2 \<le> length r1
            \<and> r1 = filter (\<lambda>post. case Date_parse (lastmod post) of
                                      None \<Rightarrow> False | Some t \<Rightarrow> c1 < t) posts"
    using sub len ex by (simp add: getRecentPosts_Some)
  have b: "\<exists>more. getRecentBlogUrls Date_parse (Some c1) (Some cards) =
                 getRecentBlogUrls Date_parse (Some c2) (Some cards) @ more"
    using recentBlogUrls_loop_prefix [OF assms] by (simp add: getRecentBlogUrls_def)
  have c: "getRecentBlogUrls Date_parse (Some c1) (Some cards) =
        card_links (takeWhile (\<lambda>a. \<not> older_card Date_parse (Some c1) a) cards)"
    by (simp add: getRecentBlogUrls_def recentBlogUrls_loop_takeWhile)
  from a b c show ?thesis by blast
qed

text \<open>
  The theorem at the cutoffs 5 and 6: the card dated 5 is kept for the cutoff 5 and ends
  the traversal for the cutoff 6; the undated second card is kept both times.
\<close>

theorem C7_recency_filters_witness:
  "(5::int) \<le> 6
   \<and> getRecentPosts example_dates (Some 5) example_posts =
       Inr [example_posts ! 6, example_posts ! 7]
   \<and> getRecentBlogUrls example_dates (Some 5) (Some example_cards) = [js ''/a/'', js ''/b/'', js ''/c/'']
   \<and> getRecentBlogUrls example_dates (Some 6) (Some example_cards) = [js ''/a/'', js ''/b/'']"
proof -
  have h: "(5::int) \<le> 6" by simp
  have p: "getRecentPosts example_dates (Some 5) example_posts =
       Inr [example_posts ! 6, example_posts ! 7]" by code_simp
  have t: "card_links (takeWhile (\<lambda>a. \<not> older_card example_dates (Some 5) a) example_cards) =
       [js ''/a/'', js ''/b/'', js ''/c/'']" by code_simp
  have u: "getRecentBlogUrls example_dates (Some 6) (Some example_cards) = [js ''/a/'', js ''/b/'']"
    by code_simp
  from C7_recency_filters [OF h, of example_dates example_posts example_cards] t
  have "getRecentBlogUrls example_dates (Some 5) (Some example_cards) = [js ''/a/'', js ''/b/'', js ''/c/'']"
    by simp
  with h p u show ?thesis by blast
qed

text \<open>
  Claim C7 as it is stated fails for a card dated exactly at the cutoff: the code keeps it,
  where a traversal that stops at the first card dated at or before the cutoff returns
  nothing.
\<close>

theorem C7_cutoff_equal_counterexample:
  "getRecentBlogUrls example_dates (Some 5) (Some [\<lparr>datetime = Some (js ''d5''), href = Some (js ''/c/'')\<rparr>])
     = [js ''/c/'']
   \<and> spec_listing_filter example_dates (Some 5) [\<lparr>datetime = Some (js ''d5''), href = Some (js ''/c/'')\<rparr>]
     = []"
  by code_simp

section \<open>The check for a URL already scraped\<close>

lemma isUrlScraped_None: "isUrlScraped None u = False"
  by (simp add: isUrlScraped_def)

text \<open>
  Claim C9. If the read of the key of a URL throws, \<^verbatim>\<open>isUrlScraped\<close> returns false, for
  every URL and every store; and \<^verbatim>\<open>scrapePepperCloudBlog\<close> then goes on exactly as it
  does without a store: the document is fetched and scraped as if it were new.
\<close>

theorem C9_kv_failure_not_seen:
  assumes "kv (js ''scraped:'' @ createUrlKey u) = Inl e"
  shows "isUrlScraped (Some kv) u = False
    \<and> (u = js ''https://blog.peppercloud.com'' @ blogUrl \<longrightarrow>
         scrapePepperCloudBlog (Some kv) fetch now blogUrl cat =
         scrapePepperCloudBlog None fetch now blogUrl cat)"
proof (intro conjI impI)
  from assms show a: "isUrlScraped (Some kv) u = False"
    by (simp add: isUrlScraped_def)
  assume u: "u = js ''https://blog.peppercloud.com'' @ blogUrl"
  have a': "isUrlScraped (Some kv) (js ''https://blog.peppercloud.com'' @ blogUrl) = False"
    using a unfolding u .
  show "scrapePepperCloudBlog (Some kv) fetch now blogUrl cat =
         scrapePepperCloudBlog None fetch now blogUrl cat"
    unfolding scrapePepperCloudBlog_def Let_def
    by (simp only: a' isUrlScraped_None)
qed

text \<open>With a store whose reads all throw, the example page is scraped.\<close>

theorem C9_kv_failure_not_seen_witness:
  "failing_kv (js ''scraped:'' @ createUrlKey (js ''https://blog.peppercloud.com/post/'')) = Inl KVError
   \<and> isUrlScraped (Some failing_kv) (js ''https://blog.peppercloud.com/post/'') = False
   \<and> scrapePepperCloudBlog (Some failing_kv) example_fetch (js ''2025-08-01'') (js ''/post/'') (js ''crm'') =
       scrapePepperCloudBlog None example_fetch (js ''2025-08-01'') (js ''/post/'') (js ''crm'')
   \<and> map_option title
        (scrapePepperCloudBlog (Some failing_kv) example_fetch (js ''2025-08-01'') (js ''/post/'') (js ''crm''))
       = Some (js ''A Title'')"
proof -
  have h: "failing_kv (js ''scraped:'' @ createUrlKey (js ''https://blog.peppercloud.com/post/''))
             = Inl KVError"
    by (simp add: failing_kv_def)
  have t: "map_option title
        (scrapePepperCloudBlog (Some failing_kv) example_fetch (js ''2025-08-01'') (js ''/post/'') (js ''crm''))
       = Some (js ''A Title'')"
    by code_simp
  from C9_kv_failure_not_seen [where kv = failing_kv
      and u = "js ''https://blog.peppercloud.com/post/''" and e = KVError
      and blogUrl = "js ''/post/''" and fetch = example_fetch and now = "js ''2025-08-01''"
      and cat = "js ''crm''", OF h] h t
  show ?thesis by simp
qed

section \<open>Clean file names\<close>

text \<open>
  What holds of the two functions for every title: the worker's file name is made of
  lower-case letters, digits, underscores and hyphens, is at most 100 code units long, does
  not begin with a hyphen and has no two hyphens in a row, and does not end with a hyphen
  when nothing was cut; the command-line file name is made of lower-case letters, digits,
  backslashes and hyphens and is at most 100 code units long.
\<close>

lemma lower_unit_not_upper: "c \<in> set (lower_unit x) \<Longrightarrow> \<not> is_upper c"
  by (auto simp: lower_unit_def is_upper_def split: if_splits)

lemma toLowerCase_not_upper: "c \<in> set (toLowerCase t) \<Longrightarrow> \<not> is_upper c"
  by (auto simp: toLowerCase_def dest: lower_unit_not_upper)

lemma word_not_upper_slug: "is_word c \<Longrightarrow> \<not> is_upper c \<Longrightarrow> slug_char c"
  by (auto simp: is_word_def is_upper_def slug_char_def)

lemma slug_char_hyphen: "slug_char hyphen"
  by (simp add: slug_char_def)

lemma slug_char_props: "slug_char c \<Longrightarrow> \<not> is_ws c \<and> \<not> is_upper c"
  by (auto simp: slug_char_def is_ws_def is_upper_def)

lemma set_replace_runs: "set (replace_runs P s) \<subseteq> {c \<in> set s. \<not> P c} \<union> {hyphen}"
proof (induction P s rule: replace_runs.induct)
  case (1 P)
  then show ?case by simp
next
  case (2 P c cs)
  show ?case
  proof (cases "P c")
    case True
    with 2 have "set (replace_runs P (dropWhile P cs))
        \<subseteq> {c \<in> set (dropWhile P cs). \<not> P c} \<union> {hyphen}" by simp
    moreover have "set (dropWhile P cs) \<subseteq> set cs" by (auto dest: set_dropWhileD)
    ultimately show ?thesis using True by auto
  next
    case False
    with 2 show ?thesis by auto
  qed
qed

lemma set_strip_edge_hyphens: "set (strip_edge_hyphens s) \<subseteq> set s"
proof -
  have a: "\<And>xs::jstring. set (tl xs) \<subseteq> set xs"
  proof -
    fix xs :: jstring show "set (tl xs) \<subseteq> set xs" by (cases xs) auto
  qed
  have b: "\<And>xs::jstring. set (butlast xs) \<subseteq> set xs" by (auto dest: in_set_butlastD)
  show ?thesis
    using a [of s] b [of s] b [of "tl s"]
    by (auto simp: strip_edge_hyphens_def Let_def)
qed


lemma uncut_filename_chars: "c \<in> set (uncut_filename t) \<Longrightarrow> slug_char c"
proof -
  assume c: "c \<in> set (uncut_filename t)"
  let ?f = "filter (\<lambda>c. is_word c \<or> is_ws c \<or> c = hyphen) (toLowerCase t)"
  let ?w = "replace_runs is_ws ?f"
  let ?h = "replace_runs (\<lambda>c. c = hyphen) ?w"
  from c have "c \<in> set ?h"
    using set_strip_edge_hyphens [of ?h] by (auto simp: uncut_filename_def)
  then have "c \<in> set ?w \<or> c = hyphen"
    using set_replace_runs [of "\<lambda>c. c = hyphen" ?w] by auto
  then have "(c \<in> set ?f \<and> \<not> is_ws c) \<or> c = hyphen"
    using set_replace_runs [of is_ws ?f] by auto
  then show "slug_char c"
  proof
    assume a: "c \<in> set ?f \<and> \<not> is_ws c"
    then have "c \<in> set (toLowerCase t)" by simp
    then have "\<not> is_upper c" by (rule toLowerCase_not_upper)
    with a show ?thesis by (auto intro: word_not_upper_slug slug_char_hyphen)
  next
    assume "c = hyphen"
    then show ?thesis by (simp add: slug_char_hyphen)
  qed
qed

lemma generateCleanFilename_cut: "generateCleanFilename t = take 100 (uncut_filename t)"
  by (simp add: generateCleanFilename_def uncut_filename_def)

lemma generateCleanFilename_chars:
  "c \<in> set (generateCleanFilename t) \<Longrightarrow> slug_char c \<and> \<not> is_ws c \<and> \<not> is_upper c"
  using uncut_filename_chars [of c t] slug_char_props [of c]
  by (auto simp: generateCleanFilename_cut dest: in_set_takeD)

lemma generateCleanFilename_length: "length (generateCleanFilename t) \<le> 100"
  by (simp add: generateCleanFilename_cut)


lemma double_hyphen_append: "double_hyphen (xs @ [hyphen, hyphen] @ ys)"
proof (induction xs)
  case Nil
  then show ?case by simp
next
  case (Cons x xs)
  then show ?case by (cases "xs @ [hyphen, hyphen] @ ys") auto
qed

lemma double_hyphen_split: "double_hyphen s \<Longrightarrow> \<exists>xs ys. s = xs @ [hyphen, hyphen] @ ys"
proof (induction s rule: double_hyphen.induct)
  case (1 a b cs)
  show ?case
  proof (cases "a = hyphen \<and> b = hyphen")
    case True
    then have "a # b # cs = [] @ [hyphen, hyphen] @ cs" by simp
    then show ?thesis by blast
  next
    case False
    with 1 obtain xs ys where "b # cs = xs @ [hyphen, hyphen] @ ys" by auto
    then have "a # b # cs = (a # xs) @ [hyphen, hyphen] @ ys" by simp
    then show ?thesis by blast
  qed
qed simp_all

lemma double_hyphen_iff: "double_hyphen s \<longleftrightarrow> (\<exists>xs ys. s = xs @ [hyphen, hyphen] @ ys)"
  using double_hyphen_append double_hyphen_split by blast

lemma double_hyphen_take: "\<not> double_hyphen s \<Longrightarrow> \<not> double_hyphen (take n s)"
proof
  assume n: "\<not> double_hyphen s" and "double_hyphen (take n s)"
  then obtain xs ys where "take n s = xs @ [hyphen, hyphen] @ ys" using double_hyphen_split by blast
  then have "s = xs @ [hyphen, hyphen] @ (ys @ drop n s)"
    using append_take_drop_id [of n s] by (metis append.assoc)
  with n show False using double_hyphen_append by metis
qed

lemma double_hyphen_butlast: "\<not> double_hyphen s \<Longrightarrow> \<not> double_hyphen (butlast s)"
  using double_hyphen_take [of s "length s - 1"] by (simp add: butlast_conv_take)

lemma double_hyphen_tl: "\<not> double_hyphen s \<Longrightarrow> \<not> double_hyphen (tl s)"
proof (cases s)
  case Nil
  then show ?thesis by simp
next
  case (Cons a as)
  assume n: "\<not> double_hyphen s"
  show ?thesis
  proof (cases as)
    case Nil
    with Cons show ?thesis by simp
  next
    case (Cons b bs)
    with n \<open>s = a # as\<close> show ?thesis by simp
  qed
qed

lemma replace_runs_hd:
  "s \<noteq> [] \<Longrightarrow> \<not> P (hd s) \<Longrightarrow> replace_runs P s \<noteq> [] \<and> hd (replace_runs P s) = hd s"
  by (cases s) auto

lemma replace_hyphens_no_double: "\<not> double_hyphen (replace_runs (\<lambda>c. c = hyphen) s)"
proof (induction "\<lambda>c. c = hyphen" s rule: replace_runs.induct)
  case 1
  then show ?case by simp
next
  case (2 c cs)
  let ?P = "\<lambda>c. c = hyphen"
  show ?case
  proof (cases "c = hyphen")
    case True
    let ?d = "dropWhile ?P cs"
    from 2 True have ih: "\<not> double_hyphen (replace_runs ?P ?d)" by simp
    have r: "replace_runs ?P (c # cs) = hyphen # replace_runs ?P ?d"
      using True by simp
    show ?thesis
    proof (cases "?d = []")
      case True
      show ?thesis unfolding r True by simp
    next
      case False
      then have nh: "\<not> ?P (hd ?d)" by (rule hd_dropWhile)
      from replace_runs_hd [where P = "?P" and s = "?d", OF False nh]
      obtain x xs where x: "replace_runs ?P ?d = x # xs" "x \<noteq> hyphen"
        using nh by (cases "replace_runs ?P ?d") auto
      with ih show ?thesis unfolding r by simp
    qed
  next
    case False
    with 2 have ih: "\<not> double_hyphen (replace_runs ?P cs)" by simp
    with False show ?thesis by (cases "replace_runs ?P cs") auto
  qed
qed


lemma no_double_after_hyphen:
  "\<not> double_hyphen (hyphen # rest) \<Longrightarrow> rest = [] \<or> hd rest \<noteq> hyphen"
  by (cases rest) auto

lemma no_double_before_last:
  assumes "\<not> double_hyphen s" and "s \<noteq> []" and "last s = hyphen"
  shows "butlast s = [] \<or> last (butlast s) \<noteq> hyphen"
proof (rule ccontr)
  assume "\<not> (butlast s = [] \<or> last (butlast s) \<noteq> hyphen)"
  then have b: "butlast s \<noteq> []" "last (butlast s) = hyphen" by auto
  have "s = butlast s @ [last s]" using assms(2) by simp
  moreover have "butlast s = butlast (butlast s) @ [last (butlast s)]" using b(1) by simp
  ultimately have "s = butlast (butlast s) @ [hyphen, hyphen] @ []"
    using b(2) assms(3) by (metis append.assoc append_Cons append_Nil)
  with assms(1) show False using double_hyphen_append by metis
qed

lemma strip_edge_hyphens_edges:
  assumes "\<not> double_hyphen r"
  shows "(strip_edge_hyphens r = []
          \<or> hd (strip_edge_hyphens r) \<noteq> hyphen \<and> last (strip_edge_hyphens r) \<noteq> hyphen)
         \<and> \<not> double_hyphen (strip_edge_hyphens r)"
proof -
  define s1 where "s1 = (if r \<noteq> [] \<and> hd r = hyphen then tl r else r)"
  have s: "strip_edge_hyphens r = (if s1 \<noteq> [] \<and> last s1 = hyphen then butlast s1 else s1)"
    by (simp add: strip_edge_hyphens_def s1_def Let_def)
  have nd1: "\<not> double_hyphen s1"
    using assms double_hyphen_tl [of r] by (simp add: s1_def)
  have hd1: "s1 = [] \<or> hd s1 \<noteq> hyphen"
  proof (cases "r \<noteq> [] \<and> hd r = hyphen")
    case True
    then have "r = hyphen # tl r" by (cases r) auto
    with assms have "\<not> double_hyphen (hyphen # tl r)" by simp
    from no_double_after_hyphen [OF this] True show ?thesis by (simp add: s1_def)
  next
    case False
    then show ?thesis by (auto simp: s1_def)
  qed
  show ?thesis
  proof (cases "s1 \<noteq> [] \<and> last s1 = hyphen")
    case True
    then have r: "strip_edge_hyphens r = butlast s1" unfolding s by auto
    from True no_double_before_last [OF nd1]
    have l: "butlast s1 = [] \<or> last (butlast s1) \<noteq> hyphen" by blast
    have h: "butlast s1 = [] \<or> hd (butlast s1) \<noteq> hyphen"
    proof (cases "butlast s1 = []")
      case True
      then show ?thesis by simp
    next
      case False
      then have "hd (butlast s1) = hd s1" by (cases s1) (auto split: if_splits)
      with hd1 False show ?thesis by auto
    qed
    from l h double_hyphen_butlast [OF nd1] show ?thesis unfolding r by blast
  next
    case False
    then have r: "strip_edge_hyphens r = s1" unfolding s by auto
    from False hd1 nd1 show ?thesis unfolding r by blast
  qed
qed

lemma uncut_filename_edges:
  "(uncut_filename t = []
     \<or> hd (uncut_filename t) \<noteq> hyphen \<and> last (uncut_filename t) \<noteq> hyphen)
   \<and> \<not> double_hyphen (uncut_filename t)"
  unfolding uncut_filename_def
  by (rule strip_edge_hyphens_edges [OF replace_hyphens_no_double])

lemma generateCleanFilename_no_leading_hyphen:
  "generateCleanFilename t = [] \<or> hd (generateCleanFilename t) \<noteq> hyphen"
  using uncut_filename_edges [of t]
  by (cases "uncut_filename t") (auto simp: generateCleanFilename_cut)

lemma generateCleanFilename_no_double_hyphen:
  "\<not> double_hyphen (generateCleanFilename t)"
  using uncut_filename_edges [of t]
  by (simp add: generateCleanFilename_cut double_hyphen_take)

lemma generateCleanFilename_short_no_trailing_hyphen:
  assumes "length (uncut_filename t) \<le> 100"
  shows "generateCleanFilename t = [] \<or> last (generateCleanFilename t) \<noteq> hyphen"
  using assms uncut_filename_edges [of t]
  by (auto simp: generateCleanFilename_cut)

lemma set_trim: "set (trim s) \<subseteq> set s"
  by (auto simp: trim_def dest!: set_dropWhileD)

lemma set_replace_bs_s: "set (replace_bs_s s) \<subseteq> set s \<union> {hyphen}"
proof (induction s rule: replace_bs_s.induct)
  case 1
  then show ?case by simp
next
  case (2 c cs)
  show ?case
  proof (cases "c = backslash \<and> cs \<noteq> [] \<and> hd cs = letter_s")
    case True
    with 2 have "set (replace_bs_s (dropWhile (\<lambda>x. x = letter_s) cs))
        \<subseteq> set (dropWhile (\<lambda>x. x = letter_s) cs) \<union> {hyphen}" by simp
    moreover have "set (dropWhile (\<lambda>x. x = letter_s) cs) \<subseteq> set cs"
      by (auto dest: set_dropWhileD)
    ultimately show ?thesis using True by auto
  next
    case False
    with 2 have "set (replace_bs_s cs) \<subseteq> set cs \<union> {hyphen}" by simp
    with False show ?thesis by auto
  qed
qed

lemma cleanFilename_keep_props: "cleanFilename_keep c \<Longrightarrow> \<not> is_ws c \<and> \<not> is_upper c"
  by (auto simp: cleanFilename_keep_def is_ws_def is_upper_def)

lemma cleanFilename_chars:
  assumes "c \<in> set (cleanFilename t)"
  shows "cleanFilename_keep c \<and> \<not> is_ws c \<and> \<not> is_upper c"
proof -
  let ?f = "filter cleanFilename_keep (toLowerCase t)"
  from assms have "c \<in> set (replace_runs (\<lambda>c. c = hyphen) (replace_bs_s (trim ?f)))"
    by (auto simp: cleanFilename_def dest: in_set_takeD)
  then have "c \<in> set (replace_bs_s (trim ?f)) \<or> c = hyphen"
    using set_replace_runs [of "\<lambda>c. c = hyphen" "replace_bs_s (trim ?f)"] by auto
  then have "c \<in> set (trim ?f) \<or> c = hyphen"
    using set_replace_bs_s [of "trim ?f"] by auto
  then have "c \<in> set ?f \<or> c = hyphen"
    using set_trim [of ?f] by auto
  then have "cleanFilename_keep c" by (auto simp: cleanFilename_keep_def)
  with cleanFilename_keep_props show ?thesis by blast
qed

lemma cleanFilename_length: "length (cleanFilename t) \<le> 100"
  by (simp add: cleanFilename_def)

text \<open>
  Claim C10 at a title of 99 letters, a space and one more letter. The hyphen that stands
  for the space is the hundredth code unit of the cleaned name; cutting to 100 code units
  comes after the removal of hyphens at the ends, so the file name of the worker ends with
  a hyphen.
\<close>

theorem C10_worker_trailing_hyphen:
  "generateCleanFilename long_title = replicate 99 letter_a @ js ''-''
   \<and> length long_title = 101
   \<and> last (generateCleanFilename long_title) = hyphen"
  by code_simp

section \<open>Word counts\<close>

lemma split_char_not_Nil: "split_char d s \<noteq> []"
  by (induction s) (auto split: list.splits)

lemma length_split_char: "length (split_char d s) = Suc (length (filter (\<lambda>c. c = d) s))"
proof (induction s)
  case Nil
  then show ?case by simp
next
  case (Cons c s)
  then show ?case
    using split_char_not_Nil [of d s] by (cases "split_char d s") auto
qed

text \<open>
  Claim C3, as the code has it in the worker. The word count of a scraped document is
  taken over its sections alone: it is the number of pieces that splitting at every space
  gives of the paragraph texts and list items joined by single spaces, that is one more
  than the number of spaces in the joined text. \<^verbatim>\<open>createPostData\<close> records the same
  number. Title, description, category and the formatted prompt play no part in it.
\<close>

theorem C3_worker_word_count:
  "calculateWordCount secs =
     Suc (length (filter (\<lambda>c. c = space_unit) (js_join (js '' '') (all_texts secs))))
   \<and> word_count (createPostData blog src) = calculateWordCount (w_sections blog)"
  by (simp add: calculateWordCount_def createPostData_def length_split_char)

text \<open>
  Claim C3 as it is stated fails in both variants on the example page. The command-line
  scraper records the word count 1 where its formatted prompt has 14 tokens delimited by
  white space; the worker counts 4 words where its formatted prompt has 8 tokens.
\<close>

theorem C3_word_count_counterexample:
  "map_option wordCount
      (scrapePepperCloudBlog None example_fetch (js ''2025-08-01'') (js ''/post/'') (js ''crm'')) = Some 1
   \<and> map_option (\<lambda>b. length (ws_tokens (prepareForAI b)))
      (scrapePepperCloudBlog None example_fetch (js ''2025-08-01'') (js ''/post/'') (js ''crm'')) = Some 14
   \<and> map_option (\<lambda>b. word_count (createPostData b (w_url b)))
      (scrapeBlog example_fetch (js ''https://blog.peppercloud.com/post/'') None) = Some 4
   \<and> map_option (\<lambda>b. length (ws_tokens (prepareForOpenAI b)))
      (scrapeBlog example_fetch (js ''https://blog.peppercloud.com/post/'') None) = Some 8"
  by code_simp

section \<open>Heading sections in the formatted prompt\<close>

text \<open>
  The worker's formatter gives the same prompt when every section but the intro sections
  is removed from the document. The command-line formatter pushes, for a section with a
  heading, the heading after a backslash and the letter \<^verbatim>\<open>n\<close>, then the lines of its
  content.
\<close>

lemma concat_map_filter_relevant:
  assumes "\<And>x. \<not> P x \<Longrightarrow> f x = []"
  shows "concat (map f (filter P xs)) = concat (map f xs)"
  using assms by (induction xs) auto

lemma prepareForOpenAI_intro_only:
  "prepareForOpenAI (d\<lparr>w_sections := filter (\<lambda>s. stype s = js ''intro'') (w_sections d)\<rparr>) =
   prepareForOpenAI d"
proof -
  have "concat (map openai_section_lines (filter (\<lambda>s. stype s = js ''intro'') (w_sections d))) =
        concat (map openai_section_lines (w_sections d))"
    by (rule concat_map_filter_relevant) (simp add: openai_section_lines_def)
  then show ?thesis
    by (simp add: prepareForOpenAI_def prepareForOpenAI_lines_def)
qed

lemma section_lines_heading:
  assumes "stype s \<noteq> js ''intro''" and "heading s = Some h" and "h \<noteq> []"
  shows "section_lines s = (bs_n @ h) # concat (map item_lines (content s))"
  using assms by (simp add: section_lines_def)

text \<open>
  Claim C4 on the example page, whose two sections both have a heading. The prompt of the
  worker's \<^verbatim>\<open>prepareForOpenAI\<close> is the header alone: neither heading, nor the paragraph,
  nor the list appears in it. The command-line \<^verbatim>\<open>prepareForAI\<close> pushes a line for
  each of them.
\<close>

theorem C4_worker_omits_headings:
  "map_option w_sections (scrapeBlog example_fetch (js ''https://blog.peppercloud.com/post/'') None) =
     Some [\<lparr>stype = js ''section_h2'', heading = Some (js ''Intro Heading''),
             content = [Paragraph (js ''Hello world'')]\<rparr>,
           \<lparr>stype = js ''section_h2'', heading = Some (js ''Next''),
             content = [ListItems [js ''A'', js ''B'']]\<rparr>]
   \<and> map_option prepareForOpenAI
       (scrapeBlog example_fetch (js ''https://blog.peppercloud.com/post/'') None) =
     Some (js ''Title: A Title'' @ newline @ js ''Description: An excerpt'' @ newline
           @ js ''Category: uncategorized'' @ newline @ newline)
   \<and> map_option prepareForAI_lines
       (scrapePepperCloudBlog None example_fetch (js ''2025-08-01'') (js ''/post/'') (js ''crm'')) =
     Some [js ''Title: A Title'', js ''Description: An excerpt'', js ''Category: crm'',
           bs_n @ js ''Intro Heading'', js ''- Hello world'',
           bs_n @ js ''Next'', js ''List items:'', js ''  '' @ bullet @ js '' A'', js ''  '' @ bullet @ js '' B'']"
  by code_simp

end
